theory Spec2Isabelle
  imports Main "HOL-Library.Char_ord" "HOL-Library.List_Lexorder" "HOL-Library.Sublist"
    "HOL-Library.AList"
begin

section \<open>The storage interface driven by the suite\<close>

text \<open>
  The suite of \<^verbatim>\<open>suite.go\<close> drives a value of the interface \<^verbatim>\<open>certmagic.Storage\<close>.
  An interface value is a method table together with the state behind it: the method
  table is the record \<open>Storage\<close>, whose methods take the backend state and return the
  new one; the state is a field of the suite. A Go \<^verbatim>\<open>error\<close> is \<open>None\<close> (nil) or
  \<open>Some\<close> message; a call returning \<^verbatim>\<open>(value, error)\<close> returns a sum, \<open>Inl\<close> the
  error. A byte slice is \<open>None\<close> (nil) or \<open>Some\<close> of its bytes, the bytes being
  Isabelle's 8-bit characters, so that \<^verbatim>\<open>[]byte(key)\<close> is \<open>Some key\<close>. The context
  argument of every method carries no data the suite reads and is left out.
\<close>

type_synonym error = string

type_synonym byteslice = "string option"

record KeyInfo =
  Key :: string
  Modified :: int
  Size :: int
  IsTerminal :: bool

record 's Storage =
  Lock :: "string \<Rightarrow> 's \<Rightarrow> error option \<times> 's"
  Unlock :: "string \<Rightarrow> 's \<Rightarrow> error option \<times> 's"
  Store :: "string \<Rightarrow> byteslice \<Rightarrow> 's \<Rightarrow> error option \<times> 's"
  Load :: "string \<Rightarrow> 's \<Rightarrow> (error + byteslice) \<times> 's"
  Delete :: "string \<Rightarrow> 's \<Rightarrow> error option \<times> 's"
  Exists :: "string \<Rightarrow> 's \<Rightarrow> bool \<times> 's"
  List :: "string \<Rightarrow> bool \<Rightarrow> 's \<Rightarrow> (error + string list) \<times> 's"
  Stat :: "string \<Rightarrow> 's \<Rightarrow> (error + KeyInfo) \<times> 's"

text \<open>\<^verbatim>\<open>bytes.Equal\<close>: a nil slice equals an empty one.\<close>

definition bytes_Equal :: "byteslice \<Rightarrow> byteslice \<Rightarrow> bool" where
  "bytes_Equal a b = (case_option [] id a = case_option [] id b)"

section \<open>Key names\<close>

definition KeyPrefix :: string where
  "KeyPrefix = ''__test__key__''"

text \<open>\<^verbatim>\<open>strconv.Itoa\<close>: the decimal digits, after a minus sign for a negative number.\<close>

definition digit :: "nat \<Rightarrow> char" where
  "digit d = char_of (48 + d)"

function FormatUint :: "nat \<Rightarrow> string" where
  "FormatUint n = (if n < 10 then [digit n] else FormatUint (n div 10) @ [digit (n mod 10)])"
  by pat_completeness auto
termination
  by (relation "measure id") auto

declare FormatUint.simps [simp del]

definition Itoa :: "int \<Rightarrow> string" where
  "Itoa i = (if i < 0 then CHR ''-'' # FormatUint (nat (- i)) else FormatUint (nat i))"

section \<open>The suite\<close>

text \<open>
  \<^verbatim>\<open>Suite\<close>: the storage \<open>S\<close> with its backend state, the generator \<open>Rng\<close> (its
  method \<^verbatim>\<open>Int\<close>) with its state, and the tracked keys. The mutex \<^verbatim>\<open>mu\<close> guards
  \<open>randKeys\<close>, which only the goroutine of the test touches; it has no counterpart here.
\<close>

record ('s, 'r) Suite =
  S :: "'s Storage"
  backend :: 's
  Rng :: "'r \<Rightarrow> int \<times> 'r"
  rngstate :: 'r
  randKeys :: "string list"

text \<open>\<^verbatim>\<open>ts.Rng.Int()\<close>: the next number, and the suite with the generator advanced.\<close>

definition Rng_Int :: "('s, 'r) Suite \<Rightarrow> int \<times> ('s, 'r) Suite" where
  "Rng_Int ts = (let (n, r) = Rng ts (rngstate ts) in (n, ts\<lparr>rngstate := r\<rparr>))"

definition randKey :: "('s, 'r) Suite \<Rightarrow> string \<times> ('s, 'r) Suite" where
  "randKey ts = (let (n, ts') = Rng_Int ts in (KeyPrefix @ Itoa n, ts'))"

text \<open>
  \<^verbatim>\<open>NewTestSuite\<close>. The generator \<^verbatim>\<open>rand.New(rand.NewSource(0))\<close> belongs to Go's standard
  library: its constructor \<open>rand_NewSource\<close> and its method \<open>rand_Int\<close> are parameters.
  The storage is handed over with the state it is in.
\<close>

definition NewTestSuite ::
  "(int \<Rightarrow> 'r) \<Rightarrow> ('r \<Rightarrow> int \<times> 'r) \<Rightarrow> 's Storage \<Rightarrow> 's \<Rightarrow> ('s, 'r) Suite" where
  "NewTestSuite rand_NewSource rand_Int s b =
     \<lparr>S = s, backend = b, Rng = rand_Int, rngstate = rand_NewSource 0, randKeys = []\<rparr>"

text \<open>A method call on \<^verbatim>\<open>ts.S\<close>: the method runs on the backend state and leaves the new one.\<close>

definition call ::
  "('s Storage \<Rightarrow> 's \<Rightarrow> 'a \<times> 's) \<Rightarrow> ('s, 'r) Suite \<Rightarrow> 'a \<times> ('s, 'r) Suite" where
  "call m ts = (let (a, b) = m (S ts) (backend ts) in (a, ts\<lparr>backend := b\<rparr>))"

text \<open>
  Every call of \<^verbatim>\<open>t.Fatalf\<close> in the source is one constructor, with the arguments of its
  message.
\<close>

datatype fatal =
    Unlocks_unlocked_key
  | Fails_to_lock_key error
  | Fails_to_unlock_locked_key error
  | Unlock_failed error
  | Unstored_key_exists string
  | Load_should_fail string
  | Stat_should_fail string
  | Store_empty_key_should_fail
  | Store_nil_failed string error
  | Store_empty_value_failed string error
  | Store_failed string error
  | Stored_key_doesnt_exist string
  | Load_failed string error
  | Load_mismatch string byteslice byteslice
  | Delete_failed string error
  | Deleted_key_still_exists string
  | List_should_fail string bool
  | Stat_failed string error
  | Stat_Key_is_set_to string string
  | Stat_IsTerminal_should_be string bool
  | List_failed string bool error
  | List_should_return string bool string string

section \<open>Rendering a list of keys\<close>

text \<open>
  \<^verbatim>\<open>fmt.Sprintf("%#v", ls)\<close> for a \<^verbatim>\<open>[]string\<close>: Go syntax, each element quoted as by
  \<^verbatim>\<open>strconv.Quote\<close>. The quoting modelled is the one of printable ASCII: a double quote
  (byte 0x22) and a backslash (byte 0x5C) get a backslash in front, every other byte is
  copied. A nil slice is not told apart from an empty one.
\<close>

fun escape :: "string \<Rightarrow> string" where
  "escape [] = []"
| "escape (c # cs) =
     (if c = CHR 0x22 \<or> c = CHR 0x5C then [CHR 0x5C, c] else [c]) @ escape cs"

definition Quote :: "string \<Rightarrow> string" where
  "Quote s = CHR 0x22 # escape s @ [CHR 0x22]"

fun commaSep :: "string list \<Rightarrow> string" where
  "commaSep [] = []"
| "commaSep [x] = x"
| "commaSep (x # y # zs) = x @ '', '' @ commaSep (y # zs)"

definition Sprintf_v :: "string list \<Rightarrow> string" where
  "Sprintf_v ls = ''[]string{'' @ commaSep (map Quote ls) @ ''}''"

section \<open>The single-key lifecycle check\<close>

text \<open>
  The statements of \<^verbatim>\<open>testStorageSingleKey\<close> after the deferred \<^verbatim>\<open>Unlock\<close> is registered.
  \<^verbatim>\<open>t.Fatalf\<close> ends the goroutine of the test: the result is \<open>Some\<close> of the failure and
  nothing after it runs.
\<close>

definition singleKey_checks ::
  "string \<Rightarrow> byteslice \<Rightarrow> ('s, 'r) Suite \<Rightarrow> fatal option \<times> ('s, 'r) Suite" where
  "singleKey_checks key val ts0 =
    (let (ex, ts) = call (\<lambda>sto. Exists sto key) ts0 in
     if ex then (Some (Unstored_key_exists key), ts) else
     let (ld, ts) = call (\<lambda>sto. Load sto key) ts in
     if \<not> isl ld then (Some (Load_should_fail key), ts) else
     let (info, ts) = call (\<lambda>sto. Stat sto key) ts in
     if \<not> isl info then (Some (Stat_should_fail key), ts) else
     let (err, ts) = call (\<lambda>sto. Store sto [] (Some [])) ts in
     if err = None then (Some Store_empty_key_should_fail, ts) else
     let (err, ts) = call (\<lambda>sto. Store sto key None) ts in
     if err \<noteq> None then (Some (Store_nil_failed key (the err)), ts) else
     let (err, ts) = call (\<lambda>sto. Store sto key (Some [])) ts in
     if err \<noteq> None then (Some (Store_empty_value_failed key (the err)), ts) else
     let (err, ts) = call (\<lambda>sto. Store sto key val) ts in
     if err \<noteq> None then (Some (Store_failed key (the err)), ts) else
     let (ex, ts) = call (\<lambda>sto. Exists sto key) ts in
     if \<not> ex then (Some (Stored_key_doesnt_exist key), ts) else
     let (ld, ts) = call (\<lambda>sto. Load sto key) ts in
     (case ld of
        Inl e \<Rightarrow> (Some (Load_failed key e), ts)
      | Inr s \<Rightarrow>
          if \<not> bytes_Equal val s then (Some (Load_mismatch key s val), ts) else
          let (err, ts) = call (\<lambda>sto. Delete sto key) ts in
          if err \<noteq> None then (Some (Delete_failed key (the err)), ts) else
          let (ex, ts) = call (\<lambda>sto. Exists sto key) ts in
          if ex then (Some (Deleted_key_still_exists key), ts) else
          (None, ts)))"

text \<open>
  \<^verbatim>\<open>testStorageSingleKey\<close>: the results of \<^verbatim>\<open>Lock\<close> and of the deferred \<^verbatim>\<open>Unlock\<close> are
  dropped, as the source drops them; the deferred call runs on every way out.
\<close>

definition testStorageSingleKey :: "('s, 'r) Suite \<Rightarrow> fatal option \<times> ('s, 'r) Suite" where
  "testStorageSingleKey ts0 =
    (let (key, ts) = randKey ts0;
         val = Some key;
         (_, ts) = call (\<lambda>sto. Lock sto key) ts;
         (res, ts) = singleKey_checks key val ts;
         (_, ts) = call (\<lambda>sto. Unlock sto key) ts
     in (res, ts))"

section \<open>The hierarchical listing check\<close>

definition testStorageDir :: "('s, 'r) Suite \<Rightarrow> fatal option \<times> ('s, 'r) Suite" where
  "testStorageDir ts0 =
    (let (dir, ts) = randKey ts0;
         val = Some dir;
         k1 = dir @ ''/k1'';
         k2 = dir @ ''/k/a/b'';
         k3 = dir @ ''/k/c'';
         ts = ts\<lparr>randKeys := randKeys ts @ [k1, k2, k3]\<rparr>;
         (ls, ts) = call (\<lambda>sto. List sto k1 True) ts in
     if \<not> isl ls then (Some (List_should_fail k1 True), ts) else
     let (ls, ts) = call (\<lambda>sto. List sto k2 False) ts in
     if \<not> isl ls then (Some (List_should_fail k2 False), ts) else
     let (err, ts) = call (\<lambda>sto. Store sto k1 val) ts in
     if err \<noteq> None then (Some (Store_failed k1 (the err)), ts) else
     let (err, ts) = call (\<lambda>sto. Store sto k2 val) ts in
     if err \<noteq> None then (Some (Store_failed k2 (the err)), ts) else
     let (err, ts) = call (\<lambda>sto. Store sto k3 val) ts in
     if err \<noteq> None then (Some (Store_failed k3 (the err)), ts) else
     let (info, ts) = call (\<lambda>sto. Stat sto dir) ts in
     (case info of
        Inl e \<Rightarrow> (Some (Stat_failed dir e), ts)
      | Inr info \<Rightarrow>
     if Key info \<noteq> dir then (Some (Stat_Key_is_set_to dir (Key info)), ts) else
     if IsTerminal info then (Some (Stat_IsTerminal_should_be dir False), ts) else
     let (info, ts) = call (\<lambda>sto. Stat sto k2) ts in
     (case info of
        Inl e \<Rightarrow> (Some (Stat_failed k2 e), ts)
      | Inr info \<Rightarrow>
     if Key info \<noteq> k2 then (Some (Stat_Key_is_set_to k2 (Key info)), ts) else
     if \<not> IsTerminal info then (Some (Stat_IsTerminal_should_be k2 True), ts) else
     let (ls, ts) = call (\<lambda>sto. List sto dir False) ts in
     (case ls of
        Inl e \<Rightarrow> (Some (List_failed dir False e), ts)
      | Inr ls \<Rightarrow>
     let got = Sprintf_v (sort ls);
         exp = Sprintf_v [dir @ ''/k'', k1] in
     if got \<noteq> exp then (Some (List_should_return dir False exp got), ts) else
     let (ls, ts) = call (\<lambda>sto. List sto dir True) ts in
     (case ls of
        Inl e \<Rightarrow> (Some (List_failed dir True e), ts)
      | Inr ls \<Rightarrow>
     let got = Sprintf_v (sort ls);
         exp = Sprintf_v [dir @ ''/k'', dir @ ''/k/a'', dir @ ''/k/a/b'', dir @ ''/k/c'', k1] in
     if got \<noteq> exp then (Some (List_should_return dir True exp got), ts) else
     (None, ts))))))"

section \<open>The locking check\<close>

text \<open>
  The closure \<^verbatim>\<open>test\<close> of \<^verbatim>\<open>testLocker\<close>, as one goroutine runs it from iteration \<open>i\<close> on:
  an error of \<^verbatim>\<open>Lock\<close> goes to the next iteration, an error of \<^verbatim>\<open>Unlock\<close> is fatal.
  \<^verbatim>\<open>runtime.Gosched()\<close> only yields the processor.
\<close>

function test_from :: "'s Storage \<Rightarrow> string \<Rightarrow> nat \<Rightarrow> 's \<Rightarrow> fatal option \<times> 's" where
  "test_from sto key i st =
    (if i < 5 then
       (let (err, st) = Lock sto key st in
        if err \<noteq> None then test_from sto key (i + 1) st else
        let (err, st) = Unlock sto key st in
        if err \<noteq> None then (Some (Unlock_failed (the err)), st) else
        test_from sto key (i + 1) st)
     else (None, st))"
  by pat_completeness auto
termination
  by (relation "measure (\<lambda>(sto, key, i, st). 5 - i)") auto

declare test_from.simps [simp del]

definition test :: "'s Storage \<Rightarrow> string \<Rightarrow> 's \<Rightarrow> fatal option \<times> 's" where
  "test sto key st = test_from sto key 0 st"

text \<open>
  The goroutines of the stress phase share the storage, so the closure is also given
  step by step: a worker is at its call of \<^verbatim>\<open>Lock\<close>, at its call of \<^verbatim>\<open>Unlock\<close>, or has
  returned; one step is one call on the storage, followed by the loop's increment and
  test. \<^verbatim>\<open>t.Fatalf\<close> in a goroutine that is not the test's records the failure and ends
  that goroutine only (its deferred \<^verbatim>\<open>wg.Done()\<close> runs).
\<close>

datatype pc = At_Lock | At_Unlock | Returned

record worker =
  wkey :: string
  iter :: nat
  at :: pc

definition spawn :: "string \<Rightarrow> worker" where
  "spawn key = \<lparr>wkey = key, iter = 0, at = At_Lock\<rparr>"

definition next_iter :: "worker \<Rightarrow> worker" where
  "next_iter w = w\<lparr>iter := iter w + 1, at := (if iter w + 1 < 5 then At_Lock else Returned)\<rparr>"

definition worker_step :: "'s Storage \<Rightarrow> worker \<Rightarrow> 's \<Rightarrow> (worker \<times> fatal option) \<times> 's" where
  "worker_step sto w st =
    (case at w of
       At_Lock \<Rightarrow>
         if iter w < 5 then
           (let (err, st) = Lock sto (wkey w) st in
            if err \<noteq> None then ((next_iter w, None), st)
            else ((w\<lparr>at := At_Unlock\<rparr>, None), st))
         else ((w\<lparr>at := Returned\<rparr>, None), st)
     | At_Unlock \<Rightarrow>
         (let (err, st) = Unlock sto (wkey w) st in
          if err \<noteq> None then ((w\<lparr>at := Returned\<rparr>, Some (Unlock_failed (the err))), st)
          else ((next_iter w, None), st))
     | Returned \<Rightarrow> ((w, None), st))"

definition steps_left :: "worker \<Rightarrow> nat" where
  "steps_left w =
    (case at w of
       At_Lock \<Rightarrow> 2 * (5 - iter w) + 2
     | At_Unlock \<Rightarrow> 2 * (5 - iter w) + 1
     | Returned \<Rightarrow> 0)"

text \<open>A worker run on its own until it returns.\<close>

function finish :: "'s Storage \<Rightarrow> worker \<Rightarrow> 's \<Rightarrow> (worker \<times> fatal list) \<times> 's" where
  "finish sto w st =
    (if at w = Returned then ((w, []), st) else
     (case worker_step sto w st of ((w', f), st') \<Rightarrow>
        (case finish sto w' st' of ((w'', fs), st'') \<Rightarrow>
           ((w'', (case f of None \<Rightarrow> [] | Some x \<Rightarrow> [x]) @ fs), st''))))"
  by pat_completeness auto
termination
  apply (relation "measure (\<lambda>(sto, w, st). steps_left w)")
  subgoal by simp
  subgoal for sto w st x y w' f
    by (cases "at w")
       (auto simp: worker_step_def steps_left_def next_iter_def split: prod.splits if_splits)
  done

declare finish.simps [simp del]

text \<open>
  The goroutines run interleaved. A schedule names, step after step, the worker that
  makes the next call on the storage (a number that names no worker, or a worker that
  has returned, lets the step pass). \<^verbatim>\<open>wg.Wait()\<close> returns when every worker has
  returned: once the schedule is used up, the workers still running are run to their
  end, in their order.
\<close>

fun drain :: "'s Storage \<Rightarrow> worker list \<Rightarrow> 's \<Rightarrow> (worker list \<times> fatal list) \<times> 's" where
  "drain sto [] st = (([], []), st)"
| "drain sto (w # ws) st =
    (case finish sto w st of ((w', fs), st') \<Rightarrow>
       (case drain sto ws st' of ((ws', fs'), st'') \<Rightarrow> ((w' # ws', fs @ fs'), st'')))"

fun run_workers ::
  "'s Storage \<Rightarrow> nat list \<Rightarrow> worker list \<Rightarrow> 's \<Rightarrow> (worker list \<times> fatal list) \<times> 's" where
  "run_workers sto [] ws st = drain sto ws st"
| "run_workers sto (n # sched) ws st =
    (if n < length ws then
       (case worker_step sto (ws ! n) st of ((w', f), st') \<Rightarrow>
          (case run_workers sto sched (ws[n := w']) st' of ((ws', fs), st'') \<Rightarrow>
             ((ws', (case f of None \<Rightarrow> [] | Some x \<Rightarrow> [x]) @ fs), st'')))
     else run_workers sto sched ws st)"

text \<open>
  The loops that start the goroutines: \<open>n\<close> keys from \<^verbatim>\<open>randKey\<close>, two workers for each.
\<close>

primrec spawn_workers :: "nat \<Rightarrow> ('s, 'r) Suite \<Rightarrow> worker list \<times> ('s, 'r) Suite" where
  "spawn_workers 0 ts = ([], ts)"
| "spawn_workers (Suc n) ts =
    (let (key, ts) = randKey ts;
         (ws, ts) = spawn_workers n ts
     in (replicate 2 (spawn key) @ ws, ts))"

text \<open>
  \<^verbatim>\<open>testLocker\<close>: the failure that ended the goroutine of the test, if any, the failures
  recorded by the workers, and the suite.
\<close>

definition testLocker ::
  "nat list \<Rightarrow> ('s, 'r) Suite \<Rightarrow> fatal option \<times> fatal list \<times> ('s, 'r) Suite" where
  "testLocker sched ts0 =
    (let (n, ts) = Rng_Int ts0;
         key = Itoa n;
         (err, ts) = call (\<lambda>sto. Unlock sto key) ts in
     if err = None then (Some Unlocks_unlocked_key, [], ts) else
     let (err, ts) = call (\<lambda>sto. Lock sto key) ts in
     if err \<noteq> None then (Some (Fails_to_lock_key (the err)), [], ts) else
     let (err, ts) = call (\<lambda>sto. Unlock sto key) ts in
     if err \<noteq> None then (Some (Fails_to_unlock_locked_key (the err)), [], ts) else
     let (ws, ts) = spawn_workers 5 ts;
         ((ws, fs), b) = run_workers (S ts) sched ws (backend ts)
     in (None, fs, ts\<lparr>backend := b\<rparr>))"

section \<open>Running the suite\<close>

text \<open>The function registered with \<^verbatim>\<open>t.Cleanup\<close>: the result of \<^verbatim>\<open>Delete\<close> is dropped.\<close>

definition cleanup :: "('s, 'r) Suite \<Rightarrow> ('s, 'r) Suite" where
  "cleanup ts = fold (\<lambda>k ts. snd (call (\<lambda>sto. Delete sto k) ts)) (randKeys ts) ts"

text \<open>
  \<^verbatim>\<open>Run\<close>: the three checks in turn, up to the first failure in the goroutine of the
  test, then the cleanup, which runs however the test ended. The result lists the
  failures reported; the test passed when there is none.
\<close>

definition checks :: "nat list \<Rightarrow> ('s, 'r) Suite \<Rightarrow> fatal list \<times> ('s, 'r) Suite" where
  "checks sched ts0 =
    (case testLocker sched ts0 of
       (Some f, fs, ts) \<Rightarrow> (fs @ [f], ts)
     | (None, fs, ts) \<Rightarrow>
         (case testStorageSingleKey ts of
            (Some f, ts) \<Rightarrow> (fs @ [f], ts)
          | (None, ts) \<Rightarrow>
              (case testStorageDir ts of
                 (Some f, ts) \<Rightarrow> (fs @ [f], ts)
               | (None, ts) \<Rightarrow> (fs, ts))))"

definition Run :: "nat list \<Rightarrow> ('s, 'r) Suite \<Rightarrow> fatal list \<times> ('s, 'r) Suite" where
  "Run sched ts0 = (let (fs, ts) = checks sched ts0 in (fs, cleanup ts))"

section \<open>Observing the calls\<close>

text \<open>
  The calls the suite makes are observed through a storage that wraps another one and
  keeps the list of the calls made on it, each with its result, in their order.
\<close>

datatype op =
    Op_Lock string
  | Op_Unlock string
  | Op_Store string byteslice
  | Op_Load string
  | Op_Delete string
  | Op_Exists string
  | Op_List string bool
  | Op_Stat string

datatype result =
    R_error "error option"
  | R_bytes "error + byteslice"
  | R_bool bool
  | R_list "error + string list"
  | R_info "error + KeyInfo"

fun perform :: "'s Storage \<Rightarrow> op \<Rightarrow> 's \<Rightarrow> result \<times> 's" where
  "perform sto (Op_Lock k) st = map_prod R_error id (Lock sto k st)"
| "perform sto (Op_Unlock k) st = map_prod R_error id (Unlock sto k st)"
| "perform sto (Op_Store k v) st = map_prod R_error id (Store sto k v st)"
| "perform sto (Op_Load k) st = map_prod R_bytes id (Load sto k st)"
| "perform sto (Op_Delete k) st = map_prod R_error id (Delete sto k st)"
| "perform sto (Op_Exists k) st = map_prod R_bool id (Exists sto k st)"
| "perform sto (Op_List k r) st = map_prod R_list id (List sto k r st)"
| "perform sto (Op_Stat k) st = map_prod R_info id (Stat sto k st)"

definition record_op ::
  "op \<Rightarrow> ('a \<Rightarrow> result) \<Rightarrow> ('s \<Rightarrow> 'a \<times> 's) \<Rightarrow> 's \<times> (op \<times> result) list
     \<Rightarrow> 'a \<times> ('s \<times> (op \<times> result) list)" where
  "record_op c R m = (\<lambda>(st, log). let (a, st') = m st in (a, (st', log @ [(c, R a)])))"

definition logged :: "'s Storage \<Rightarrow> ('s \<times> (op \<times> result) list) Storage" where
  "logged sto =
    \<lparr>Lock = (\<lambda>k. record_op (Op_Lock k) R_error (Lock sto k)),
     Unlock = (\<lambda>k. record_op (Op_Unlock k) R_error (Unlock sto k)),
     Store = (\<lambda>k v. record_op (Op_Store k v) R_error (Store sto k v)),
     Load = (\<lambda>k. record_op (Op_Load k) R_bytes (Load sto k)),
     Delete = (\<lambda>k. record_op (Op_Delete k) R_error (Delete sto k)),
     Exists = (\<lambda>k. record_op (Op_Exists k) R_bool (Exists sto k)),
     List = (\<lambda>k r. record_op (Op_List k r) R_list (List sto k r)),
     Stat = (\<lambda>k. record_op (Op_Stat k) R_info (Stat sto k))\<rparr>"

text \<open>The calls recorded so far by the storage of a suite, with and without their results.\<close>

definition records :: "('s \<times> (op \<times> result) list, 'r) Suite \<Rightarrow> (op \<times> result) list" where
  "records ts = snd (backend ts)"

definition calls :: "('s \<times> (op \<times> result) list, 'r) Suite \<Rightarrow> op list" where
  "calls ts = map fst (snd (backend ts))"

text \<open>
  A script is a list of calls, each with what is expected of its result. A storage
  follows a script from a state when each call in turn, made on the state the calls
  before it left, meets its expectation.
\<close>

fun follows :: "'s Storage \<Rightarrow> (op \<times> (result \<Rightarrow> bool)) list \<Rightarrow> 's \<Rightarrow> bool" where
  "follows sto [] st = True"
| "follows sto ((c, e) # script) st =
    (case perform sto c st of (r, st') \<Rightarrow> e r \<and> follows sto script st')"

definition after :: "'s Storage \<Rightarrow> op list \<Rightarrow> 's \<Rightarrow> 's" where
  "after sto cs st = fold (\<lambda>c st. snd (perform sto c st)) cs st"

fun fails :: "result \<Rightarrow> bool" where
  "fails (R_error e) = (e \<noteq> None)"
| "fails (R_bytes x) = isl x"
| "fails (R_list x) = isl x"
| "fails (R_info x) = isl x"
| "fails (R_bool b) = False"

fun succeeds :: "result \<Rightarrow> bool" where
  "succeeds (R_error e) = (e = None)"
| "succeeds (R_bytes x) = (\<not> isl x)"
| "succeeds (R_list x) = (\<not> isl x)"
| "succeeds (R_info x) = (\<not> isl x)"
| "succeeds (R_bool b) = True"

fun is_bool :: "bool \<Rightarrow> result \<Rightarrow> bool" where
  "is_bool b (R_bool c) = (c = b)"
| "is_bool b _ = False"

fun loads :: "string \<Rightarrow> result \<Rightarrow> bool" where
  "loads v (R_bytes (Inr s)) = (case_option [] id s = v)"
| "loads v _ = False"



section \<open>An in-memory storage and a counting generator\<close>

text \<open>
  A storage to run the suite on: the stored values by key, and the keys locked. A key
  exists when it is stored or when a stored key lies below it. \<^verbatim>\<open>Lock\<close> on a key that
  is held gives up with an error.
\<close>

record mem =
  files :: "(string \<times> string) list"
  locks :: "string list"

definition below :: "string \<Rightarrow> string \<Rightarrow> bool" where
  "below k f = prefix (k @ ''/'') f"

definition is_file :: "mem \<Rightarrow> string \<Rightarrow> bool" where
  "is_file m k = (map_of (files m) k \<noteq> None)"

definition is_dir :: "mem \<Rightarrow> string \<Rightarrow> bool" where
  "is_dir m k = list_ex (\<lambda>(f, v). below k f) (files m)"

fun segments :: "string \<Rightarrow> string \<Rightarrow> string list" where
  "segments acc [] = [acc]"
| "segments acc (c # cs) =
    (if c = CHR ''/'' then acc # segments [] cs else segments (acc @ [c]) cs)"

fun descend :: "string \<Rightarrow> string list \<Rightarrow> string list" where
  "descend p [] = []"
| "descend p (seg # segs) = (p @ ''/'' @ seg) # descend (p @ ''/'' @ seg) segs"

definition entries :: "mem \<Rightarrow> string \<Rightarrow> bool \<Rightarrow> string list" where
  "entries m k recursive =
    remdups (concat (map (\<lambda>(f, v).
       if below k f then
         (let ds = descend k (segments [] (drop (length k + 1) f))
          in if recursive then ds else take 1 ds)
       else []) (files m)))"

definition Mem :: "mem Storage" where
  "Mem =
    \<lparr>Lock = (\<lambda>k m. if k \<in> set (locks m) then (Some ''lock timeout'', m)
                    else (None, m\<lparr>locks := k # locks m\<rparr>)),
     Unlock = (\<lambda>k m. if k \<in> set (locks m) then (None, m\<lparr>locks := removeAll k (locks m)\<rparr>)
                      else (Some ''not locked'', m)),
     Store = (\<lambda>k v m. if k = [] then (Some ''invalid key'', m)
                       else (None, m\<lparr>files := AList.update k (case_option [] id v) (files m)\<rparr>)),
     Load = (\<lambda>k m. case map_of (files m) k of
                      None \<Rightarrow> (Inl ''not found'', m)
                    | Some v \<Rightarrow> (Inr (Some v), m)),
     Delete = (\<lambda>k m. if is_file m k then (None, m\<lparr>files := AList.delete k (files m)\<rparr>)
                      else (Some ''not found'', m)),
     Exists = (\<lambda>k m. (is_file m k \<or> is_dir m k, m)),
     List = (\<lambda>k r m. if is_file m k \<or> is_dir m k then (Inr (entries m k r), m)
                      else (Inl ''not found'', m)),
     Stat = (\<lambda>k m. case map_of (files m) k of
                      Some v \<Rightarrow> (Inr \<lparr>Key = k, Modified = 0, Size = int (length v), IsTerminal = True\<rparr>, m)
                    | None \<Rightarrow> if is_dir m k
                              then (Inr \<lparr>Key = k, Modified = 0, Size = 0, IsTerminal = False\<rparr>, m)
                              else (Inl ''not found'', m))\<rparr>"

definition empty_mem :: mem where
  "empty_mem = \<lparr>files = [], locks = []\<rparr>"

text \<open>A generator that counts: a source seeded with \<open>n\<close> gives \<open>n\<close>, \<open>n + 1\<close>, and so on.\<close>

definition count_NewSource :: "int \<Rightarrow> int" where
  "count_NewSource seed = seed"

definition count_Int :: "int \<Rightarrow> int \<times> int" where
  "count_Int n = (n, n + 1)"

text \<open>Variants of the storage: each differs from \<open>Mem\<close> in the one method named.\<close>

definition Lax :: "mem Storage" where
  \<comment> \<open>\<^verbatim>\<open>Lock\<close> always succeeds; \<^verbatim>\<open>Unlock\<close> succeeds on every key that was ever locked.\<close>
  "Lax = Mem
    \<lparr>Lock := (\<lambda>k m. (None, m\<lparr>locks := k # locks m\<rparr>)),
     Unlock := (\<lambda>k m. if k \<in> set (locks m) then (None, m) else (Some ''not locked'', m))\<rparr>"


definition Busy :: "mem Storage" where
  \<comment> \<open>\<^verbatim>\<open>Lock\<close> never gets the lock.\<close>
  "Busy = Mem\<lparr>Lock := (\<lambda>k m. (Some ''lock timeout'', m))\<rparr>"

section \<open>What the checks are said to do\<close>

text \<open>
  The definitions of this section follow the description of the suite, not its code;
  the theorems compare the two.
\<close>

text \<open>The assertion sequence of the single-key lifecycle check on the key \<open>key\<close>.\<close>

definition lifecycle :: "string \<Rightarrow> (op \<times> (result \<Rightarrow> bool)) list" where
  "lifecycle key =
    [(Op_Exists key, is_bool False),
     (Op_Load key, fails),
     (Op_Stat key, fails),
     (Op_Store [] (Some []), fails),
     (Op_Store key None, succeeds),
     (Op_Store key (Some []), succeeds),
     (Op_Store key (Some key), succeeds),
     (Op_Exists key, is_bool True),
     (Op_Load key, loads key),
     (Op_Delete key, succeeds),
     (Op_Exists key, is_bool False)]"




text \<open>The first three assertions of the locking check, on the key \<open>key\<close>.\<close>

definition lock_unlock :: "string \<Rightarrow> (op \<times> (result \<Rightarrow> bool)) list" where
  "lock_unlock key =
    [(Op_Unlock key, fails),
     (Op_Lock key, succeeds),
     (Op_Unlock key, succeeds)]"

text \<open>The first \<open>n\<close> key names a suite generates.\<close>

primrec gen_keys :: "nat \<Rightarrow> ('s, 'r) Suite \<Rightarrow> string list" where
  "gen_keys 0 ts = []"
| "gen_keys (Suc n) ts = fst (randKey ts) # gen_keys n (snd (randKey ts))"

text \<open>The first \<open>n\<close> numbers the generator of a suite gives.\<close>

primrec draws :: "nat \<Rightarrow> ('s, 'r) Suite \<Rightarrow> int list" where
  "draws 0 ts = []"
| "draws (Suc n) ts = fst (Rng_Int ts) # draws n (snd (Rng_Int ts))"

text \<open>
  The calls of one worker on the key \<open>key\<close>, read as iterations: a \<^verbatim>\<open>Lock\<close> that fails is
  an iteration; a \<^verbatim>\<open>Lock\<close> that succeeds is an iteration together with the \<^verbatim>\<open>Unlock\<close>
  after it, and when that \<^verbatim>\<open>Unlock\<close> fails it is the worker's last call and a failure
  of the test. The result is the number of iterations and the failure; \<open>None\<close> when the
  calls do not read so.
\<close>

definition lock_result :: "string \<Rightarrow> op \<times> result \<Rightarrow> error option option" where
  "lock_result key x =
    (case x of (Op_Lock k, R_error e) \<Rightarrow> if k = key then Some e else None | _ \<Rightarrow> None)"

definition unlock_result :: "string \<Rightarrow> op \<times> result \<Rightarrow> error option option" where
  "unlock_result key x =
    (case x of (Op_Unlock k, R_error e) \<Rightarrow> if k = key then Some e else None | _ \<Rightarrow> None)"

fun iterations :: "string \<Rightarrow> (op \<times> result) list \<Rightarrow> (nat \<times> fatal option) option" where
  "iterations key [] = Some (0, None)"
| "iterations key (x # rest) =
    (case lock_result key x of
       None \<Rightarrow> None
     | Some (Some e) \<Rightarrow> map_option (apfst Suc) (iterations key rest)
     | Some None \<Rightarrow>
         (case rest of
            [] \<Rightarrow> None
          | y # rest' \<Rightarrow>
              (case unlock_result key y of
                 None \<Rightarrow> None
               | Some None \<Rightarrow> map_option (apfst Suc) (iterations key rest')
               | Some (Some e) \<Rightarrow>
                   if rest' = [] then Some (1, Some (Unlock_failed e)) else None)))"

text \<open>The failures of the test among recorded calls: every \<^verbatim>\<open>Unlock\<close> that failed.\<close>

fun unlock_failures :: "(op \<times> result) list \<Rightarrow> fatal list" where
  "unlock_failures [] = []"
| "unlock_failures ((Op_Unlock k, R_error (Some e)) # rest) = Unlock_failed e # unlock_failures rest"
| "unlock_failures (x # rest) = unlock_failures rest"

text \<open>The key a call is made on.\<close>

fun key_of :: "op \<Rightarrow> string" where
  "key_of (Op_Lock k) = k"
| "key_of (Op_Unlock k) = k"
| "key_of (Op_Store k v) = k"
| "key_of (Op_Load k) = k"
| "key_of (Op_Delete k) = k"
| "key_of (Op_Exists k) = k"
| "key_of (Op_List k r) = k"
| "key_of (Op_Stat k) = k"

text \<open>
  A storage that answers \<^verbatim>\<open>Lock\<close> and \<^verbatim>\<open>Unlock\<close> with the error \<open>e\<close>, whatever the calls
  did, and is the storage \<open>sto\<close> in everything else.
\<close>

definition with_lock_errors :: "error option \<Rightarrow> 's Storage \<Rightarrow> 's Storage" where
  "with_lock_errors e sto = sto
    \<lparr>Lock := (\<lambda>k st. (e, snd (Lock sto k st))),
     Unlock := (\<lambda>k st. (e, snd (Unlock sto k st)))\<rparr>"

text \<open>
  The calls \<open>l\<close> are what a worker on the key \<open>key\<close> makes from its iteration \<open>i\<close> to its
  end: they read as iterations, at most \<open>5 - i\<close> of them, and all \<open>5 - i\<close> unless the last
  call is an \<^verbatim>\<open>Unlock\<close> that failed.
\<close>

definition runs_from :: "string \<Rightarrow> nat \<Rightarrow> (op \<times> result) list \<Rightarrow> bool" where
  "runs_from key i l =
    (case iterations key l of
       None \<Rightarrow> False
     | Some (n, f) \<Rightarrow> n \<le> 5 - i \<and> (f = None \<longrightarrow> n = 5 - i))"

text \<open>
  The calls \<open>l\<close> are what the worker \<open>w\<close>, where it stands, still makes up to its end; a
  worker at its \<^verbatim>\<open>Unlock\<close> has the \<^verbatim>\<open>Lock\<close> of the iteration behind it.
\<close>

definition remaining :: "worker \<Rightarrow> (op \<times> result) list \<Rightarrow> bool" where
  "remaining w l =
    (case at w of
       At_Lock \<Rightarrow> runs_from (wkey w) (iter w) l
     | At_Unlock \<Rightarrow> runs_from (wkey w) (iter w) ((Op_Lock (wkey w), R_error None) # l)
     | Returned \<Rightarrow> l = [])"

text \<open>A generator that gives the same number every time.\<close>

definition same_NewSource :: "int \<Rightarrow> unit" where
  "same_NewSource seed = ()"

definition same_Int :: "unit \<Rightarrow> int \<times> unit" where
  "same_Int u = (0, u)"

section \<open>Auxiliary facts\<close>

lemma call_fst: "fst (call m ts) = fst (m (S ts) (backend ts))"
  by (simp add: call_def split_beta)

lemma call_snd: "snd (call m ts) = ts\<lparr>backend := snd (m (S ts) (backend ts))\<rparr>"
  by (simp add: call_def split_beta)

lemma call_S: "S (snd (call m ts)) = S ts"
  by (simp add: call_snd)

lemma call_backend: "backend (snd (call m ts)) = snd (m (S ts) (backend ts))"
  by (simp add: call_snd)

lemma call_randKeys: "randKeys (snd (call m ts)) = randKeys ts"
  by (simp add: call_snd)

lemma call_rngstate: "rngstate (snd (call m ts)) = rngstate ts"
  by (simp add: call_snd)

lemma call_Rng: "Rng (snd (call m ts)) = Rng ts"
  by (simp add: call_snd)

lemma Rng_Int_fst: "fst (Rng_Int ts) = fst (Rng ts (rngstate ts))"
  by (simp add: Rng_Int_def split_beta)

lemma Rng_Int_snd: "snd (Rng_Int ts) = ts\<lparr>rngstate := snd (Rng ts (rngstate ts))\<rparr>"
  by (simp add: Rng_Int_def split_beta)

lemma randKey_fst: "fst (randKey ts) = KeyPrefix @ Itoa (fst (Rng ts (rngstate ts)))"
  by (simp add: randKey_def split_beta Rng_Int_fst)

lemma randKey_snd: "snd (randKey ts) = ts\<lparr>rngstate := snd (Rng ts (rngstate ts))\<rparr>"
  by (simp add: randKey_def split_beta Rng_Int_snd)

lemma record_op_proj:
  "record_op c R m b = (fst (m (fst b)), (snd (m (fst b)), snd b @ [(c, R (fst (m (fst b))))]))"
  by (simp add: record_op_def split_beta)

lemma logged_sel:
  "Lock (logged sto) k = record_op (Op_Lock k) R_error (Lock sto k)"
  "Unlock (logged sto) k = record_op (Op_Unlock k) R_error (Unlock sto k)"
  "Store (logged sto) k v = record_op (Op_Store k v) R_error (Store sto k v)"
  "Load (logged sto) k = record_op (Op_Load k) R_bytes (Load sto k)"
  "Delete (logged sto) k = record_op (Op_Delete k) R_error (Delete sto k)"
  "Exists (logged sto) k = record_op (Op_Exists k) R_bool (Exists sto k)"
  "List (logged sto) k r = record_op (Op_List k r) R_list (List sto k r)"
  "Stat (logged sto) k = record_op (Op_Stat k) R_info (Stat sto k)"
  by (simp_all add: logged_def)








lemma randKey_S: "S (snd (randKey ts)) = S ts"
  by (simp add: randKey_snd)

lemma randKey_backend: "backend (snd (randKey ts)) = backend ts"
  by (simp add: randKey_snd)

lemma randKey_randKeys: "randKeys (snd (randKey ts)) = randKeys ts"
  by (simp add: randKey_snd)






lemma singleKey_checks_calls:
  assumes "S ts = logged sto"
  shows "\<exists>cs. calls (snd (singleKey_checks key (Some key) ts)) = calls ts @ cs \<and> cs \<noteq> []
           \<and> prefix cs (map fst (lifecycle key))
           \<and> (fst (singleKey_checks key (Some key) ts) = None \<longrightarrow> cs = map fst (lifecycle key))"
  unfolding singleKey_checks_def lifecycle_def
  by (simp add: Let_def split_beta call_fst call_S call_backend sum.case_eq_if assms logged_sel
      record_op_proj calls_def)

lemma singleKey_checks_S: "S (snd (singleKey_checks key val ts)) = S ts"
  unfolding singleKey_checks_def
  by (simp add: Let_def split_beta call_S sum.case_eq_if)

lemma testStorageSingleKey_fst:
  "fst (testStorageSingleKey ts) =
     fst (singleKey_checks (fst (randKey ts)) (Some (fst (randKey ts)))
            (snd (call (\<lambda>sto. Lock sto (fst (randKey ts))) (snd (randKey ts)))))"
  by (simp add: testStorageSingleKey_def Let_def split_beta)

lemma testStorageSingleKey_snd:
  "snd (testStorageSingleKey ts) =
     snd (call (\<lambda>sto. Unlock sto (fst (randKey ts)))
       (snd (singleKey_checks (fst (randKey ts)) (Some (fst (randKey ts)))
            (snd (call (\<lambda>sto. Lock sto (fst (randKey ts))) (snd (randKey ts)))))))"
  by (simp add: testStorageSingleKey_def Let_def split_beta)


lemma testStorageDir_randKeys:
  "randKeys (snd (testStorageDir ts)) =
     randKeys ts @ [fst (randKey ts) @ ''/k1'', fst (randKey ts) @ ''/k/a/b'',
                    fst (randKey ts) @ ''/k/c'']"
  unfolding testStorageDir_def
  by (simp add: Let_def split_beta call_randKeys randKey_randKeys sum.case_eq_if)

lemma testStorageDir_S: "S (snd (testStorageDir ts)) = S ts"
  unfolding testStorageDir_def
  by (simp add: Let_def split_beta call_S randKey_S sum.case_eq_if)

section \<open>The hierarchical listing check: its assertions\<close>



section \<open>The single-key lifecycle check: its assertions\<close>

lemma calls_call:
  assumes "S ts = logged sto"
  shows "calls (snd (call (\<lambda>s. Lock s k) ts)) = calls ts @ [Op_Lock k]"
    and "calls (snd (call (\<lambda>s. Unlock s k) ts)) = calls ts @ [Op_Unlock k]"
    and "calls (snd (call (\<lambda>s. Delete s k) ts)) = calls ts @ [Op_Delete k]"
  by (simp_all add: calls_def call_backend assms logged_sel record_op_proj)

lemma testStorageSingleKey_calls:
  assumes "S ts = logged sto"
  shows "\<exists>cs. calls (snd (testStorageSingleKey ts)) =
            calls ts @ [Op_Lock (fst (randKey ts))] @ cs @ [Op_Unlock (fst (randKey ts))]
           \<and> cs \<noteq> [] \<and> prefix cs (map fst (lifecycle (fst (randKey ts))))
           \<and> (fst (testStorageSingleKey ts) = None
                \<longrightarrow> cs = map fst (lifecycle (fst (randKey ts))))"
proof -
  let ?key = "fst (randKey ts)"
  let ?ts0 = "snd (randKey ts)"
  let ?ts1 = "snd (call (\<lambda>sto. Lock sto ?key) ?ts0)"
  let ?ts2 = "snd (singleKey_checks ?key (Some ?key) ?ts1)"
  have S0: "S ?ts0 = logged sto"
    by (simp only: randKey_S assms)
  have S1: "S ?ts1 = logged sto"
    by (simp only: call_S S0)
  have S2: "S ?ts2 = logged sto"
    by (simp only: singleKey_checks_S S1)
  have c0: "calls ?ts0 = calls ts"
    by (simp only: calls_def randKey_backend)
  from singleKey_checks_calls[OF S1, of ?key]
  obtain cs where cs: "calls ?ts2 = calls ?ts1 @ cs" "cs \<noteq> []"
      "prefix cs (map fst (lifecycle ?key))"
      "fst (singleKey_checks ?key (Some ?key) ?ts1) = None \<longrightarrow> cs = map fst (lifecycle ?key)"
    by (elim exE conjE)
  have "calls (snd (testStorageSingleKey ts)) = calls ?ts2 @ [Op_Unlock ?key]"
    by (simp only: testStorageSingleKey_snd calls_call(2)[OF S2])
  also have "\<dots> = calls ts @ [Op_Lock ?key] @ cs @ [Op_Unlock ?key]"
    by (simp only: cs(1) calls_call(1)[OF S0] c0 append_assoc)
  finally have 1: "calls (snd (testStorageSingleKey ts)) =
      calls ts @ [Op_Lock ?key] @ cs @ [Op_Unlock ?key]" .
  have 2: "fst (testStorageSingleKey ts) = None \<longrightarrow> cs = map fst (lifecycle ?key)"
    using cs(4) by (simp only: testStorageSingleKey_fst)
  show ?thesis
    by (rule exI[of _ cs]) (intro conjI 1 2 cs(2) cs(3))
qed




section \<open>The workers of the stress phase\<close>

lemma unlock_failures_append:
  "unlock_failures (xs @ ys) = unlock_failures xs @ unlock_failures ys"
  by (induction xs rule: unlock_failures.induct) simp_all

lemma unlock_failures_single:
  "unlock_failures [(Op_Unlock k, R_error e)] = (case e of None \<Rightarrow> [] | Some x \<Rightarrow> [Unlock_failed x])"
  by (cases e) simp_all

lemma worker_step_wkey: "wkey (fst (fst (worker_step sto w st))) = wkey w"
  by (cases "at w") (simp_all add: worker_step_def split_beta Let_def next_iter_def)

lemma worker_step_log:
  "\<exists>new. snd (snd (worker_step (logged sto) w b)) = snd b @ new
     \<and> (case snd (fst (worker_step (logged sto) w b)) of None \<Rightarrow> [] | Some x \<Rightarrow> [x])
         = unlock_failures new
     \<and> (\<forall>x\<in>set new. key_of (fst x) = wkey w)"
proof (cases "at w")
  case At_Lock
  then show ?thesis
    by (simp add: worker_step_def split_beta Let_def logged_sel record_op_proj)
next
  case At_Unlock
  then show ?thesis
    by (cases "fst (Unlock sto (wkey w) (fst b))")
       (simp_all add: worker_step_def split_beta Let_def logged_sel record_op_proj)
next
  case Returned
  then show ?thesis
    by (simp add: worker_step_def)
qed

lemma finish_unfold:
  "finish sto w st =
    (if at w = Returned then ((w, []), st) else
       ((fst (fst (finish sto (fst (fst (worker_step sto w st))) (snd (worker_step sto w st)))),
         (case snd (fst (worker_step sto w st)) of None \<Rightarrow> [] | Some x \<Rightarrow> [x])
           @ snd (fst (finish sto (fst (fst (worker_step sto w st))) (snd (worker_step sto w st))))),
        snd (finish sto (fst (fst (worker_step sto w st))) (snd (worker_step sto w st)))))"
  by (subst finish.simps) (simp add: split_beta)

lemma finish_Returned: "at (fst (fst (finish sto w st))) = Returned"
proof (induction sto w st rule: finish.induct)
  case (1 sto w st)
  show ?case
  proof (cases "at w = Returned")
    case True
    then show ?thesis by (subst finish_unfold) simp
  next
    case False
    have "at (fst (fst (finish sto (fst (fst (worker_step sto w st))) (snd (worker_step sto w st)))))
            = Returned"
      by (rule "1.IH"[OF False prod.collapse prod.collapse])
    with False show ?thesis by (subst finish_unfold) simp
  qed
qed

lemma finish_wkey: "wkey (fst (fst (finish sto w st))) = wkey w"
proof (induction sto w st rule: finish.induct)
  case (1 sto w st)
  show ?case
  proof (cases "at w = Returned")
    case True
    then show ?thesis by (subst finish_unfold) simp
  next
    case False
    have "wkey (fst (fst (finish sto (fst (fst (worker_step sto w st))) (snd (worker_step sto w st)))))
            = wkey (fst (fst (worker_step sto w st)))"
      by (rule "1.IH"[OF False prod.collapse prod.collapse])
    with False show ?thesis by (subst finish_unfold) (simp add: worker_step_wkey)
  qed
qed

lemma finish_log_aux:
  "sto' = logged sto \<Longrightarrow>
   \<exists>new. snd (snd (finish sto' w b)) = snd b @ new
     \<and> snd (fst (finish sto' w b)) = unlock_failures new
     \<and> (\<forall>x\<in>set new. key_of (fst x) = wkey w)"
proof (induction sto' w b rule: finish.induct)
  case (1 sto' w b)
  show ?case
  proof (cases "at w = Returned")
    case True
    then show ?thesis by (subst (1 2) finish_unfold) simp
  next
    case False
    let ?w = "fst (fst (worker_step sto' w b))"
    let ?b = "snd (worker_step sto' w b)"
    obtain new1 where n1: "snd ?b = snd b @ new1"
        "(case snd (fst (worker_step sto' w b)) of None \<Rightarrow> [] | Some x \<Rightarrow> [x])
           = unlock_failures new1"
        "\<forall>x\<in>set new1. key_of (fst x) = wkey w"
      using worker_step_log[of sto w b] "1.prems" by (elim exE conjE) simp
    have "\<exists>new. snd (snd (finish sto' ?w ?b)) = snd ?b @ new
            \<and> snd (fst (finish sto' ?w ?b)) = unlock_failures new
            \<and> (\<forall>x\<in>set new. key_of (fst x) = wkey ?w)"
      by (rule "1.IH"[OF False prod.collapse prod.collapse "1.prems"])
    then obtain new2 where n2: "snd (snd (finish sto' ?w ?b)) = snd ?b @ new2"
        "snd (fst (finish sto' ?w ?b)) = unlock_failures new2"
        "\<forall>x\<in>set new2. key_of (fst x) = wkey w"
      by (elim exE conjE) (simp add: worker_step_wkey)
    have "snd (snd (finish sto' w b)) = snd b @ (new1 @ new2)"
      using False n1(1) n2(1) by (subst finish_unfold) simp
    moreover have "snd (fst (finish sto' w b)) = unlock_failures (new1 @ new2)"
      using False n1(2) n2(2) by (subst finish_unfold) (simp add: unlock_failures_append)
    moreover have "\<forall>x\<in>set (new1 @ new2). key_of (fst x) = wkey w"
      using n1(3) n2(3) by auto
    ultimately show ?thesis by blast
  qed
qed

lemmas finish_log = finish_log_aux[OF refl]

lemma drain_length: "length (fst (fst (drain sto ws st))) = length ws"
  by (induction ws arbitrary: st) (simp_all add: split_beta)

lemma drain_Returned: "w \<in> set (fst (fst (drain sto ws st))) \<Longrightarrow> at w = Returned"
  by (induction ws arbitrary: st) (auto simp: split_beta finish_Returned)

lemma drain_wkey: "map wkey (fst (fst (drain sto ws st))) = map wkey ws"
  by (induction ws arbitrary: st) (simp_all add: split_beta finish_wkey)

lemma drain_log:
  "\<exists>new. snd (snd (drain (logged sto) ws b)) = snd b @ new
     \<and> snd (fst (drain (logged sto) ws b)) = unlock_failures new
     \<and> (\<forall>x\<in>set new. key_of (fst x) \<in> wkey ` set ws)"
proof (induction ws arbitrary: b)
  case Nil
  show ?case by simp
next
  case (Cons w ws)
  let ?b = "snd (finish (logged sto) w b)"
  obtain new1 where n1: "snd ?b = snd b @ new1"
      "snd (fst (finish (logged sto) w b)) = unlock_failures new1"
      "\<forall>x\<in>set new1. key_of (fst x) = wkey w"
    using finish_log[of sto w b] by (elim exE conjE)
  obtain new2 where n2: "snd (snd (drain (logged sto) ws ?b)) = snd ?b @ new2"
      "snd (fst (drain (logged sto) ws ?b)) = unlock_failures new2"
      "\<forall>x\<in>set new2. key_of (fst x) \<in> wkey ` set ws"
    using Cons.IH[of ?b] by (elim exE conjE)
  have "snd (snd (drain (logged sto) (w # ws) b)) = snd b @ (new1 @ new2)"
    using n1(1) n2(1) by (simp add: split_beta)
  moreover have "snd (fst (drain (logged sto) (w # ws) b)) = unlock_failures (new1 @ new2)"
    using n1(2) n2(2) by (simp add: split_beta unlock_failures_append)
  moreover have "\<forall>x\<in>set (new1 @ new2). key_of (fst x) \<in> wkey ` set (w # ws)"
    using n1(3) n2(3) by auto
  ultimately show ?case by blast
qed

lemma run_workers_length: "length (fst (fst (run_workers sto sched ws st))) = length ws"
  by (induction sched arbitrary: ws st) (simp_all add: split_beta drain_length)

lemma run_workers_Returned:
  "w \<in> set (fst (fst (run_workers sto sched ws st))) \<Longrightarrow> at w = Returned"
proof (induction sched arbitrary: ws st)
  case Nil
  then show ?case by (simp add: drain_Returned)
next
  case (Cons n sched)
  then show ?case by (simp add: split_beta split: if_splits)
qed

lemma wkey_list_update:
  "n < length ws \<Longrightarrow> wkey w' = wkey (ws ! n) \<Longrightarrow> map wkey (ws[n := w']) = map wkey ws"
  by (simp add: map_update list_update_same_conv)

lemma run_workers_wkey: "map wkey (fst (fst (run_workers sto sched ws st))) = map wkey ws"
proof (induction sched arbitrary: ws st)
  case Nil
  show ?case by (simp add: drain_wkey)
next
  case (Cons n sched)
  show ?case
    by (simp add: split_beta Cons.IH wkey_list_update worker_step_wkey)
qed

lemma run_workers_log:
  "\<exists>new. snd (snd (run_workers (logged sto) sched ws b)) = snd b @ new
     \<and> snd (fst (run_workers (logged sto) sched ws b)) = unlock_failures new
     \<and> (\<forall>x\<in>set new. key_of (fst x) \<in> wkey ` set ws)"
proof (induction sched arbitrary: ws b)
  case Nil
  show ?case using drain_log[of sto ws b] by simp
next
  case (Cons n sched)
  show ?case
  proof (cases "n < length ws")
    case False
    then show ?thesis using Cons.IH[of ws b] by simp
  next
    case True
    let ?r = "worker_step (logged sto) (ws ! n) b"
    let ?ws = "ws[n := fst (fst ?r)]"
    have keys: "wkey ` set ?ws = wkey ` set ws"
      using wkey_list_update[OF True, of "fst (fst ?r)"]
      by (metis list.set_map worker_step_wkey)
    obtain new1 where n1: "snd (snd ?r) = snd b @ new1"
        "(case snd (fst ?r) of None \<Rightarrow> [] | Some x \<Rightarrow> [x]) = unlock_failures new1"
        "\<forall>x\<in>set new1. key_of (fst x) = wkey (ws ! n)"
      using worker_step_log[of sto "ws ! n" b] by (elim exE conjE)
    obtain new2 where n2:
        "snd (snd (run_workers (logged sto) sched ?ws (snd ?r))) = snd (snd ?r) @ new2"
        "snd (fst (run_workers (logged sto) sched ?ws (snd ?r))) = unlock_failures new2"
        "\<forall>x\<in>set new2. key_of (fst x) \<in> wkey ` set ws"
      using Cons.IH[of ?ws "snd ?r"] unfolding keys by (elim exE conjE)
    have "snd (snd (run_workers (logged sto) (n # sched) ws b)) = snd b @ (new1 @ new2)"
      using True n1(1) n2(1) by (simp add: split_beta)
    moreover have "snd (fst (run_workers (logged sto) (n # sched) ws b))
                     = unlock_failures (new1 @ new2)"
      using True n1(2) n2(2) by (simp add: split_beta unlock_failures_append)
    moreover have "\<forall>x\<in>set (new1 @ new2). key_of (fst x) \<in> wkey ` set ws"
      using n1(3) n2(3) True by auto
    ultimately show ?thesis by blast
  qed
qed

section \<open>Key names: digits, prefix and determinism\<close>

lemma digit_neq_underscore: "d < 10 \<Longrightarrow> digit d \<noteq> CHR ''_''"
proof
  assume d: "d < 10" and "digit d = CHR ''_''"
  then have "of_char (char_of (48 + d) :: char) = (of_char CHR ''_'' :: nat)"
    by (simp add: digit_def)
  with d show False by simp
qed

lemma FormatUint_hd: "\<exists>d cs. d < 10 \<and> FormatUint n = digit d # cs"
proof (induction n rule: FormatUint.induct)
  case (1 n)
  show ?case
  proof (cases "n < 10")
    case True
    then show ?thesis by (subst FormatUint.simps) auto
  next
    case False
    with "1.IH" obtain d cs where "d < 10" "FormatUint (n div 10) = digit d # cs" by blast
    with False show ?thesis by (subst FormatUint.simps) auto
  qed
qed

lemma Itoa_no_KeyPrefix: "\<not> prefix KeyPrefix (Itoa i)"
proof (cases "i < 0")
  case True
  then show ?thesis by (simp add: Itoa_def KeyPrefix_def)
next
  case False
  obtain d cs where "d < 10" "FormatUint (nat i) = digit d # cs"
    using FormatUint_hd by blast
  with False digit_neq_underscore[of d] show ?thesis
    by (auto simp: Itoa_def KeyPrefix_def)
qed

lemma randKey_KeyPrefix: "prefix KeyPrefix (fst (randKey ts))"
  by (simp add: randKey_fst)

text \<open>The decimal digits determine the number.\<close>

lemma of_char_digit: "d < 10 \<Longrightarrow> of_char (digit d) = 48 + d"
  by (simp add: digit_def)

lemma FormatUint_value:
  "foldl (\<lambda>a c. 10 * a + (of_char c - 48)) 0 (FormatUint n) = n"
proof (induction n rule: FormatUint.induct)
  case (1 n)
  show ?case
  proof (cases "n < 10")
    case True
    then show ?thesis by (subst FormatUint.simps) (simp add: of_char_digit)
  next
    case False
    with "1.IH" show ?thesis
      by (subst FormatUint.simps) (simp add: of_char_digit)
  qed
qed

lemma FormatUint_inj: "FormatUint m = FormatUint n \<Longrightarrow> m = n"
  by (metis FormatUint_value)

lemma FormatUint_no_minus: "FormatUint n \<noteq> CHR ''-'' # cs"
proof
  assume a: "FormatUint n = CHR ''-'' # cs"
  obtain d ds where d: "d < 10" "FormatUint n = digit d # ds"
    using FormatUint_hd by blast
  with a have "of_char (digit d) = (of_char CHR ''-'' :: nat)" by simp
  with d(1) show False by (simp add: of_char_digit)
qed

lemma Itoa_inj: "Itoa i = Itoa j \<Longrightarrow> i = j"
proof -
  assume a: "Itoa i = Itoa j"
  show "i = j"
  proof (cases "i < 0")
    case True
    show ?thesis
    proof (cases "j < 0")
      case j: True
      with True a have "nat (- i) = nat (- j)"
        by (auto simp: Itoa_def dest: FormatUint_inj)
      with True j show ?thesis by simp
    next
      case False
      with True a FormatUint_no_minus[of "nat j" "FormatUint (nat (- i))"] show ?thesis
        by (simp add: Itoa_def)
    qed
  next
    case False
    show ?thesis
    proof (cases "j < 0")
      case True
      with False a FormatUint_no_minus[of "nat i" "FormatUint (nat (- j))"] show ?thesis
        by (simp add: Itoa_def)
    next
      case j: False
      with False a have "nat i = nat j"
        by (auto simp: Itoa_def dest: FormatUint_inj)
      with False j show ?thesis by simp
    qed
  qed
qed

lemma gen_keys_draws: "gen_keys n ts = map (\<lambda>i. KeyPrefix @ Itoa i) (draws n ts)"
  by (induction n arbitrary: ts) (simp_all add: randKey_fst randKey_snd Rng_Int_fst Rng_Int_snd)

lemma gen_keys_length: "length (gen_keys n ts) = n"
  by (induction n arbitrary: ts) simp_all

lemma gen_keys_distinct: "distinct (gen_keys n ts) \<longleftrightarrow> distinct (draws n ts)"
proof -
  have "inj (\<lambda>i. KeyPrefix @ Itoa i)"
    by (rule injI) (simp add: Itoa_inj)
  then show ?thesis
    by (simp add: gen_keys_draws distinct_map inj_on_def)
qed

lemma gen_keys_cong:
  "Rng ts = Rng ts' \<Longrightarrow> rngstate ts = rngstate ts' \<Longrightarrow> gen_keys n ts = gen_keys n ts'"
  by (induction n arbitrary: ts ts') (simp_all add: randKey_fst randKey_snd)

lemma spawn_workers_fst:
  "fst (spawn_workers n ts) = concat (map (\<lambda>k. replicate 2 (spawn k)) (gen_keys n ts))"
  by (induction n arbitrary: ts) (simp_all add: split_beta Let_def)

lemma spawn_workers_S: "S (snd (spawn_workers n ts)) = S ts"
  by (induction n arbitrary: ts) (simp_all add: split_beta Let_def randKey_S)

lemma spawn_workers_backend: "backend (snd (spawn_workers n ts)) = backend ts"
  by (induction n arbitrary: ts) (simp_all add: split_beta Let_def randKey_backend)

lemma spawn_workers_randKeys: "randKeys (snd (spawn_workers n ts)) = randKeys ts"
  by (induction n arbitrary: ts) (simp_all add: split_beta Let_def randKey_randKeys)

lemma spawn_workers_wkey:
  "w \<in> set (fst (spawn_workers n ts)) \<Longrightarrow> prefix KeyPrefix (wkey w)"
  by (auto simp: spawn_workers_fst gen_keys_draws spawn_def)

text \<open>
  C9. A suite from \<open>NewTestSuite\<close> starts its generator from the seed 0, and the key
  names it generates depend on the generator alone: two suites over any two storages
  generate the same names, and no call on the storage changes the names to come.
\<close>

theorem NewTestSuite_deterministic:
  "rngstate (NewTestSuite rand_NewSource rand_Int s1 b1) = rand_NewSource 0
   \<and> gen_keys n (NewTestSuite rand_NewSource rand_Int s1 b1)
       = gen_keys n (NewTestSuite rand_NewSource rand_Int s2 b2)
   \<and> gen_keys n (snd (call m (NewTestSuite rand_NewSource rand_Int s1 b1)))
       = gen_keys n (NewTestSuite rand_NewSource rand_Int s1 b1)"
proof (intro conjI)
  show "rngstate (NewTestSuite rand_NewSource rand_Int s1 b1) = rand_NewSource 0"
    by (simp add: NewTestSuite_def)
  show "gen_keys n (NewTestSuite rand_NewSource rand_Int s1 b1)
          = gen_keys n (NewTestSuite rand_NewSource rand_Int s2 b2)"
    by (rule gen_keys_cong) (simp_all add: NewTestSuite_def)
  show "gen_keys n (snd (call m (NewTestSuite rand_NewSource rand_Int s1 b1)))
          = gen_keys n (NewTestSuite rand_NewSource rand_Int s1 b1)"
    by (rule gen_keys_cong) (simp_all add: call_Rng call_rngstate)
qed

theorem NewTestSuite_deterministic_witness:
  "gen_keys 3 (NewTestSuite count_NewSource count_Int Mem empty_mem)
     = gen_keys 3 (NewTestSuite count_NewSource count_Int (logged Lax) (empty_mem, []))
   \<and> gen_keys 3 (NewTestSuite count_NewSource count_Int Mem empty_mem)
     = [''__test__key__0'', ''__test__key__1'', ''__test__key__2'']"
proof -
  have "gen_keys 3 (NewTestSuite count_NewSource count_Int Mem empty_mem)
          = [''__test__key__0'', ''__test__key__1'', ''__test__key__2'']"
    by code_simp
  with NewTestSuite_deterministic[of count_NewSource count_Int Mem empty_mem 3
        "logged Lax" "(empty_mem, [])"]
  show ?thesis by blast
qed

section \<open>The locking check: its assertions\<close>

lemma testLocker_passes:
  "fst (testLocker sched ts) = None \<longleftrightarrow>
     follows (S ts) (lock_unlock (Itoa (fst (Rng ts (rngstate ts))))) (backend ts)"
  unfolding testLocker_def lock_unlock_def
  by (simp add: Let_def split_beta call_fst call_S call_backend Rng_Int_fst Rng_Int_snd)

lemma testLocker_S: "S (snd (snd (testLocker sched ts))) = S ts"
  unfolding testLocker_def
  by (simp add: Let_def split_beta call_S Rng_Int_snd spawn_workers_S)

lemma testLocker_randKeys: "randKeys (snd (snd (testLocker sched ts))) = randKeys ts"
  unfolding testLocker_def
  by (simp add: Let_def split_beta call_randKeys Rng_Int_snd spawn_workers_randKeys)

lemma testLocker_calls:
  assumes "S ts = logged sto"
  shows "\<exists>cs ws. calls (snd (snd (testLocker sched ts))) = calls ts @ cs @ ws
           \<and> cs \<noteq> [] \<and> prefix cs (map fst (lock_unlock (Itoa (fst (Rng ts (rngstate ts))))))
           \<and> (\<forall>c\<in>set ws. prefix KeyPrefix (key_of c))
           \<and> (fst (testLocker sched ts) = None
                 \<longrightarrow> cs = map fst (lock_unlock (Itoa (fst (Rng ts (rngstate ts))))))"
proof -
  let ?key = "Itoa (fst (Rng ts (rngstate ts)))"
  let ?ts0 = "snd (Rng_Int ts)"
  let ?ts1 = "snd (call (\<lambda>sto. Unlock sto ?key) ?ts0)"
  let ?ts2 = "snd (call (\<lambda>sto. Lock sto ?key) ?ts1)"
  let ?ts3 = "snd (call (\<lambda>sto. Unlock sto ?key) ?ts2)"
  let ?ts4 = "snd (spawn_workers 5 ?ts3)"
  let ?ws = "fst (spawn_workers 5 ?ts3)"
  let ?run = "run_workers (logged sto) sched ?ws (backend ?ts3)"
  have S0: "S ?ts0 = logged sto" using assms by (simp add: Rng_Int_snd)
  have S1: "S ?ts1 = logged sto" by (simp only: call_S S0)
  have S2: "S ?ts2 = logged sto" by (simp only: call_S S0)
  have S3: "S ?ts3 = logged sto" by (simp only: call_S S0)
  have c0: "calls ?ts0 = calls ts" by (simp add: calls_def Rng_Int_snd)
  have c1: "calls ?ts1 = calls ts @ [Op_Unlock ?key]"
    by (simp only: calls_call(2)[OF S0] c0)
  have c2: "calls ?ts2 = calls ts @ [Op_Unlock ?key, Op_Lock ?key]"
    by (simp add: calls_call(1)[OF S1] c1)
  have c3: "calls ?ts3 = calls ts @ [Op_Unlock ?key, Op_Lock ?key, Op_Unlock ?key]"
    by (simp add: calls_call(2)[OF S2] c2)
  obtain new where new: "snd (snd ?run) = snd (backend ?ts3) @ new"
      "\<forall>x\<in>set new. key_of (fst x) \<in> wkey ` set ?ws"
    using run_workers_log[of sto sched ?ws "backend ?ts3"] by (elim exE conjE)
  have keys: "\<forall>c\<in>set (map fst new). prefix KeyPrefix (key_of c)"
    using new(2) spawn_workers_wkey[of _ 5 ?ts3] by auto
  have c4: "map fst (snd (snd ?run)) = calls ?ts3 @ map fst new"
    by (simp add: new(1) calls_def)
  consider (a) "fst (call (\<lambda>sto. Unlock sto ?key) ?ts0) = None"
    | (b) "fst (call (\<lambda>sto. Unlock sto ?key) ?ts0) \<noteq> None"
          "fst (call (\<lambda>sto. Lock sto ?key) ?ts1) \<noteq> None"
    | (c) "fst (call (\<lambda>sto. Unlock sto ?key) ?ts0) \<noteq> None"
          "fst (call (\<lambda>sto. Lock sto ?key) ?ts1) = None"
          "fst (call (\<lambda>sto. Unlock sto ?key) ?ts2) \<noteq> None"
    | (d) "fst (call (\<lambda>sto. Unlock sto ?key) ?ts0) \<noteq> None"
          "fst (call (\<lambda>sto. Lock sto ?key) ?ts1) = None"
          "fst (call (\<lambda>sto. Unlock sto ?key) ?ts2) = None"
    by blast
  then show ?thesis
  proof cases
    case a
    then have "testLocker sched ts = (Some Unlocks_unlocked_key, [], ?ts1)"
      by (simp add: testLocker_def Let_def split_beta Rng_Int_fst)
    then show ?thesis
      by (intro exI[of _ "[Op_Unlock ?key]"] exI[of _ "[]"]) (simp add: c1 lock_unlock_def)
  next
    case b
    then have "snd (snd (testLocker sched ts)) = ?ts2 \<and> fst (testLocker sched ts) \<noteq> None"
      by (auto simp: testLocker_def Let_def split_beta Rng_Int_fst)
    then show ?thesis
      by (intro exI[of _ "[Op_Unlock ?key, Op_Lock ?key]"] exI[of _ "[]"])
         (simp add: c2 lock_unlock_def)
  next
    case c
    then have "snd (snd (testLocker sched ts)) = ?ts3 \<and> fst (testLocker sched ts) \<noteq> None"
      by (auto simp: testLocker_def Let_def split_beta Rng_Int_fst)
    then show ?thesis
      by (intro exI[of _ "[Op_Unlock ?key, Op_Lock ?key, Op_Unlock ?key]"] exI[of _ "[]"])
         (simp add: c3 lock_unlock_def)
  next
    case d
    then have "snd (snd (testLocker sched ts)) = ?ts4\<lparr>backend := snd ?run\<rparr>"
      by (auto simp: testLocker_def Let_def split_beta Rng_Int_fst spawn_workers_S
          spawn_workers_backend S3)
    then have "calls (snd (snd (testLocker sched ts))) = calls ?ts3 @ map fst new"
      by (simp add: calls_def c4[unfolded calls_def])
    with keys show ?thesis
      by (intro exI[of _ "[Op_Unlock ?key, Op_Lock ?key, Op_Unlock ?key]"]
            exI[of _ "map fst new"]) (simp add: c3 lock_unlock_def)
  qed
qed

text \<open>
  C5. The locking check, on the key \<open>K\<close> it makes from the generator's first number,
  passes its first part exactly when \<open>Unlock(K)\<close> on the key never locked fails and
  then \<open>Lock(K)\<close> and \<open>Unlock(K)\<close> both succeed. These three calls, in this order and
  up to the first that is not as expected, are all the calls it makes on \<open>K\<close>: every
  later call is a worker's, on another key.
\<close>

theorem testLocker_lock_unlock:
  assumes "key = Itoa (fst (Rng ts (rngstate ts)))" and "S ts = logged sto"
  shows "(fst (testLocker sched ts) = None \<longleftrightarrow>
            follows (S ts)
              [(Op_Unlock key, fails), (Op_Lock key, succeeds), (Op_Unlock key, succeeds)]
              (backend ts))
       \<and> (\<exists>cs ws. calls (snd (snd (testLocker sched ts))) = calls ts @ cs @ ws
             \<and> cs \<noteq> [] \<and> prefix cs [Op_Unlock key, Op_Lock key, Op_Unlock key]
             \<and> (\<forall>c\<in>set ws. key_of c \<noteq> key))"
proof (rule conjI)
  show "fst (testLocker sched ts) = None \<longleftrightarrow>
          follows (S ts)
            [(Op_Unlock key, fails), (Op_Lock key, succeeds), (Op_Unlock key, succeeds)]
            (backend ts)"
    using testLocker_passes[of sched ts] by (simp only: assms(1) lock_unlock_def)
next
  from testLocker_calls[OF assms(2), of sched]
  obtain cs ws where c: "calls (snd (snd (testLocker sched ts))) = calls ts @ cs @ ws"
      "cs \<noteq> []" "prefix cs (map fst (lock_unlock key))"
      "\<forall>c\<in>set ws. prefix KeyPrefix (key_of c)"
    unfolding assms(1) by (elim exE conjE)
  have "\<forall>c\<in>set ws. key_of c \<noteq> key"
    using c(4) Itoa_no_KeyPrefix[of "fst (Rng ts (rngstate ts))"] assms(1) by auto
  moreover have "prefix cs [Op_Unlock key, Op_Lock key, Op_Unlock key]"
    using c(3) by (simp add: lock_unlock_def)
  ultimately show "\<exists>cs ws. calls (snd (snd (testLocker sched ts))) = calls ts @ cs @ ws
             \<and> cs \<noteq> [] \<and> prefix cs [Op_Unlock key, Op_Lock key, Op_Unlock key]
             \<and> (\<forall>c\<in>set ws. key_of c \<noteq> key)"
    using c(1,2) by blast
qed

theorem testLocker_lock_unlock_witness:
  "(fst (testLocker [2, 0] (NewTestSuite count_NewSource count_Int (logged Mem) (empty_mem, [])))
      = None \<longleftrightarrow>
    follows (logged Mem)
      [(Op_Unlock ''0'', fails), (Op_Lock ''0'', succeeds), (Op_Unlock ''0'', succeeds)]
      (empty_mem, []))
   \<and> (\<exists>cs ws. calls (snd (snd (testLocker [2, 0]
                  (NewTestSuite count_NewSource count_Int (logged Mem) (empty_mem, [])))))
                = [] @ cs @ ws
         \<and> cs \<noteq> [] \<and> prefix cs [Op_Unlock ''0'', Op_Lock ''0'', Op_Unlock ''0'']
         \<and> (\<forall>c\<in>set ws. key_of c \<noteq> ''0''))"
proof -
  let ?ts = "NewTestSuite count_NewSource count_Int (logged Mem) (empty_mem, [])"
  have k: "''0'' = Itoa (fst (Rng ?ts (rngstate ?ts)))" by code_simp
  have S: "S ?ts = logged Mem"
    by (simp add: NewTestSuite_def)
  have b: "backend ?ts = (empty_mem, [])" "calls ?ts = []"
    by (simp_all add: NewTestSuite_def calls_def)
  show ?thesis
    by (rule testLocker_lock_unlock[OF k S, unfolded S b])
qed

text \<open>
  The storage \<open>Lax\<close> passes the locking check, with no failure of a worker, although a
  second \<open>Unlock\<close> of the key, with no \<open>Lock\<close> in between, succeeds on it.
\<close>

theorem testLocker_second_unlock_counterexample:
  "fst (testLocker [] (NewTestSuite count_NewSource count_Int Lax empty_mem)) = None
   \<and> fst (snd (testLocker [] (NewTestSuite count_NewSource count_Int Lax empty_mem))) = []
   \<and> fst (Unlock Lax ''0''
            (after Lax [Op_Unlock ''0'', Op_Lock ''0'', Op_Unlock ''0''] empty_mem)) = None"
  by code_simp

text \<open>
  C4. The first call of the locking check is \<open>Unlock\<close> on the decimal digits of the
  generator's first number, and these digits do not begin with \<open>KeyPrefix\<close>.
\<close>

theorem testLocker_key_without_prefix:
  assumes "key = Itoa (fst (Rng ts (rngstate ts)))" and "S ts = logged sto"
  shows "(\<exists>cs. calls (snd (snd (testLocker sched ts))) = calls ts @ Op_Unlock key # cs)
       \<and> \<not> prefix KeyPrefix key"
proof (rule conjI)
  from testLocker_calls[OF assms(2), of sched]
  obtain cs ws where c: "calls (snd (snd (testLocker sched ts))) = calls ts @ cs @ ws"
      "cs \<noteq> []" "prefix cs (map fst (lock_unlock key))"
    unfolding assms(1) by (elim exE conjE)
  from c(2,3) obtain cs' where "cs = Op_Unlock key # cs'"
    by (cases cs) (simp_all add: lock_unlock_def)
  with c(1) show "\<exists>cs. calls (snd (snd (testLocker sched ts))) = calls ts @ Op_Unlock key # cs"
    by simp
next
  show "\<not> prefix KeyPrefix key"
    unfolding assms(1) by (rule Itoa_no_KeyPrefix)
qed

theorem testLocker_key_without_prefix_witness:
  "(\<exists>cs. calls (snd (snd (testLocker []
             (NewTestSuite count_NewSource count_Int (logged Mem) (empty_mem, [])))))
           = [] @ Op_Unlock ''0'' # cs)
   \<and> \<not> prefix KeyPrefix ''0''"
proof -
  let ?ts = "NewTestSuite count_NewSource count_Int (logged Mem) (empty_mem, [])"
  have k: "''0'' = Itoa (fst (Rng ?ts (rngstate ?ts)))" by code_simp
  have S: "S ?ts = logged Mem"
    by (simp add: NewTestSuite_def)
  have b: "calls ?ts = []"
    by (simp add: NewTestSuite_def calls_def)
  show ?thesis
    by (rule testLocker_key_without_prefix[OF k S, unfolded b])
qed

section \<open>The stress phase\<close>

lemma test_from_unfold:
  "test_from sto key i st =
    (if i < 5 then
       (if fst (Lock sto key st) \<noteq> None then test_from sto key (i + 1) (snd (Lock sto key st))
        else if fst (Unlock sto key (snd (Lock sto key st))) \<noteq> None
          then (Some (Unlock_failed (the (fst (Unlock sto key (snd (Lock sto key st)))))),
                snd (Unlock sto key (snd (Lock sto key st))))
          else test_from sto key (i + 1) (snd (Unlock sto key (snd (Lock sto key st)))))
     else (None, st))"
  by (subst test_from.simps) (simp add: split_beta Let_def)

lemma iterations_Lock_failed:
  "iterations key ((Op_Lock key, R_error (Some e)) # rest)
     = map_option (apfst Suc) (iterations key rest)"
  by (simp add: lock_result_def)

lemma iterations_Unlock_failed:
  "iterations key [(Op_Lock key, R_error None), (Op_Unlock key, R_error (Some e))]
     = Some (1, Some (Unlock_failed e))"
  by (simp add: lock_result_def unlock_result_def)

lemma iterations_Unlock_ok:
  "iterations key ((Op_Lock key, R_error None) # (Op_Unlock key, R_error None) # rest)
     = map_option (apfst Suc) (iterations key rest)"
  by (simp add: lock_result_def unlock_result_def)

lemma test_from_iterations:
  "i \<le> 5 \<Longrightarrow>
   \<exists>new n. snd (snd (test_from (logged sto) key i b)) = snd b @ new
     \<and> iterations key new = Some (n, fst (test_from (logged sto) key i b))
     \<and> n \<le> 5 - i
     \<and> (fst (test_from (logged sto) key i b) = None \<longrightarrow> n = 5 - i)"
proof (induction "5 - i" arbitrary: i b)
  case 0
  then have "i = 5" by simp
  then show ?case by (subst (1 2 3) test_from_unfold) simp
next
  case (Suc m)
  then have i: "i < 5" "m = 5 - (i + 1)" "i + 1 \<le> 5" by simp_all
  let ?l = "Lock (logged sto) key b"
  let ?u = "Unlock (logged sto) key (snd ?l)"
  have l: "snd (snd ?l) = snd b @ [(Op_Lock key, R_error (fst ?l))]"
    by (simp add: logged_sel record_op_proj)
  have u: "snd (snd ?u) = snd (snd ?l) @ [(Op_Unlock key, R_error (fst ?u))]"
    by (simp add: logged_sel record_op_proj)
  show ?case
  proof (cases "fst ?l")
    case (Some e)
    then have t: "test_from (logged sto) key i b = test_from (logged sto) key (i + 1) (snd ?l)"
      using i(1) by (subst test_from_unfold) simp
    from Suc.hyps(1)[OF i(2) i(3), of "snd ?l"]
    obtain new n where n: "snd (snd (test_from (logged sto) key (i + 1) (snd ?l)))
          = snd (snd ?l) @ new"
        "iterations key new = Some (n, fst (test_from (logged sto) key (i + 1) (snd ?l)))"
        "n \<le> 5 - (i + 1)"
        "fst (test_from (logged sto) key (i + 1) (snd ?l)) = None \<longrightarrow> n = 5 - (i + 1)"
      by (elim exE conjE)
    show ?thesis
      unfolding t
      by (intro exI[of _ "(Op_Lock key, R_error (Some e)) # new"] exI[of _ "Suc n"])
         (use n l Some i(1) in \<open>auto simp: iterations_Lock_failed simp del: iterations.simps\<close>)
  next
    case None
    note lock_ok = this
    show ?thesis
    proof (cases "fst ?u")
      case (Some e)
      then have t: "test_from (logged sto) key i b = (Some (Unlock_failed e), snd ?u)"
        using i(1) lock_ok by (subst test_from_unfold) simp
      show ?thesis
        unfolding t
        by (intro exI[of _ "[(Op_Lock key, R_error None), (Op_Unlock key, R_error (Some e))]"]
              exI[of _ "1"])
           (use l u Some lock_ok i(1) in \<open>simp add: iterations_Unlock_failed del: iterations.simps\<close>)
    next
      case None
      then have t: "test_from (logged sto) key i b
                      = test_from (logged sto) key (i + 1) (snd ?u)"
        using i(1) lock_ok by (subst test_from_unfold) simp
      from Suc.hyps(1)[OF i(2) i(3), of "snd ?u"]
      obtain new n where n: "snd (snd (test_from (logged sto) key (i + 1) (snd ?u)))
            = snd (snd ?u) @ new"
          "iterations key new = Some (n, fst (test_from (logged sto) key (i + 1) (snd ?u)))"
          "n \<le> 5 - (i + 1)"
          "fst (test_from (logged sto) key (i + 1) (snd ?u)) = None \<longrightarrow> n = 5 - (i + 1)"
        by (elim exE conjE)
      show ?thesis
        unfolding t
        by (intro exI[of _ "(Op_Lock key, R_error None) # (Op_Unlock key, R_error None) # new"]
              exI[of _ "Suc n"])
           (use n l u None lock_ok i(1) in \<open>auto simp: iterations_Unlock_ok simp del: iterations.simps\<close>)
    qed
  qed
qed

lemma finish_of_Returned: "at w = Returned \<Longrightarrow> finish sto w st = ((w, []), st)"
  by (subst finish_unfold) simp

lemma finish_test_from:
  "at w = At_Lock \<or> at w = Returned \<and> 5 \<le> iter w \<Longrightarrow>
   snd (fst (finish sto w st))
     = (case fst (test_from sto (wkey w) (iter w) st) of None \<Rightarrow> [] | Some f \<Rightarrow> [f])
   \<and> snd (finish sto w st) = snd (test_from sto (wkey w) (iter w) st)"
proof (induction "5 - iter w" arbitrary: w st)
  case 0
  then have i: "\<not> iter w < 5" by simp
  have t: "test_from sto (wkey w) (iter w) st = (None, st)"
    using i by (subst test_from_unfold) simp
  show ?case
  proof (cases "at w = Returned")
    case True
    then show ?thesis by (simp add: finish_of_Returned t)
  next
    case False
    with 0 have a: "at w = At_Lock" by simp
    have "worker_step sto w st = ((w\<lparr>at := Returned\<rparr>, None), st)"
      using a i by (simp add: worker_step_def)
    then show ?thesis
      using a by (subst (1 2) finish_unfold) (simp add: finish_of_Returned t)
  qed
next
  case (Suc m)
  then have i: "iter w < 5" and a: "at w = At_Lock" by auto
  let ?l = "Lock sto (wkey w) st"
  let ?u = "Unlock sto (wkey w) (snd ?l)"
  have nx: "at (next_iter w) = At_Lock \<or> at (next_iter w) = Returned \<and> 5 \<le> iter (next_iter w)"
      "m = 5 - iter (next_iter w)" "wkey (next_iter w) = wkey w" "iter (next_iter w) = iter w + 1"
    using Suc.hyps(2) by (auto simp: next_iter_def)
  have IH: "snd (fst (finish sto (next_iter w) st'))
        = (case fst (test_from sto (wkey w) (iter w + 1) st') of None \<Rightarrow> [] | Some f \<Rightarrow> [f])
      \<and> snd (finish sto (next_iter w) st') = snd (test_from sto (wkey w) (iter w + 1) st')"
    for st'
    using Suc.hyps(1)[OF nx(2) nx(1), of st'] by (simp only: nx(3,4))
  show ?case
  proof (cases "fst ?l")
    case (Some e)
    then have w1: "worker_step sto w st = ((next_iter w, None), snd ?l)"
      using a i by (simp add: worker_step_def split_beta)
    have t: "test_from sto (wkey w) (iter w) st = test_from sto (wkey w) (iter w + 1) (snd ?l)"
      using i Some by (subst test_from_unfold) simp
    show ?thesis
      using a IH[of "snd ?l"] by (subst (1 2) finish_unfold) (simp add: w1 t)
  next
    case None
    note lock_ok = this
    then have w1: "worker_step sto w st = ((w\<lparr>at := At_Unlock\<rparr>, None), snd ?l)"
      using a i by (simp add: worker_step_def split_beta)
    show ?thesis
    proof (cases "fst ?u")
      case (Some e)
      then have w2: "worker_step sto (w\<lparr>at := At_Unlock\<rparr>) (snd ?l)
                       = ((w\<lparr>at := Returned\<rparr>, Some (Unlock_failed e)), snd ?u)"
        by (simp add: worker_step_def split_beta)
      have t: "test_from sto (wkey w) (iter w) st = (Some (Unlock_failed e), snd ?u)"
        using i lock_ok Some by (subst test_from_unfold) simp
      have f2: "finish sto (w\<lparr>at := At_Unlock\<rparr>) (snd ?l)
                  = ((w\<lparr>at := Returned\<rparr>, [Unlock_failed e]), snd ?u)"
        by (subst finish_unfold) (simp add: w2 finish_of_Returned)
      show ?thesis
        using a by (subst (1 2) finish_unfold) (simp add: w1 f2 t)
    next
      case None
      then have w2: "worker_step sto (w\<lparr>at := At_Unlock\<rparr>) (snd ?l)
                       = ((next_iter w, None), snd ?u)"
        by (simp add: worker_step_def split_beta next_iter_def)
      have t: "test_from sto (wkey w) (iter w) st
                 = test_from sto (wkey w) (iter w + 1) (snd ?u)"
        using i lock_ok None by (subst test_from_unfold) simp
      have f2: "snd (fst (finish sto (w\<lparr>at := At_Unlock\<rparr>) (snd ?l)))
                  = snd (fst (finish sto (next_iter w) (snd ?u)))
                \<and> snd (finish sto (w\<lparr>at := At_Unlock\<rparr>) (snd ?l))
                  = snd (finish sto (next_iter w) (snd ?u))"
        by (subst (1 2) finish_unfold) (simp add: w2)
      show ?thesis
        using a IH[of "snd ?u"] f2 by (subst (1 2) finish_unfold) (simp add: w1 t)
    qed
  qed
qed

lemma finish_test:
  "snd (fst (finish sto (spawn key) st))
     = (case fst (test sto key st) of None \<Rightarrow> [] | Some f \<Rightarrow> [f])
   \<and> snd (finish sto (spawn key) st) = snd (test sto key st)"
  using finish_test_from[of "spawn key" sto st] by (simp add: spawn_def test_def)

section \<open>Teardown\<close>

lemma cleanup_fold_calls:
  "S ts = logged sto \<Longrightarrow>
   calls (fold (\<lambda>k ts. snd (call (\<lambda>sto. Delete sto k) ts)) ks ts) = calls ts @ map Op_Delete ks"
proof (induction ks arbitrary: ts)
  case Nil
  show ?case by simp
next
  case (Cons k ks)
  have "S (snd (call (\<lambda>sto. Delete sto k) ts)) = logged sto"
    by (simp only: call_S Cons.prems)
  from Cons.IH[OF this] show ?case
    by (simp add: calls_call(3)[OF Cons.prems])
qed

lemma cleanup_calls: "S ts = logged sto \<Longrightarrow> calls (cleanup ts) = calls ts @ map Op_Delete (randKeys ts)"
  by (simp add: cleanup_def cleanup_fold_calls)

lemma testStorageSingleKey_S: "S (snd (testStorageSingleKey ts)) = S ts"
  by (simp only: testStorageSingleKey_snd call_S singleKey_checks_S randKey_S)

lemma singleKey_checks_randKeys: "randKeys (snd (singleKey_checks key val ts)) = randKeys ts"
  unfolding singleKey_checks_def
  by (simp add: Let_def split_beta call_randKeys sum.case_eq_if)

lemma testStorageSingleKey_randKeys: "randKeys (snd (testStorageSingleKey ts)) = randKeys ts"
  by (simp only: testStorageSingleKey_snd call_randKeys singleKey_checks_randKeys
      randKey_randKeys)

lemma checks_snd:
  "snd (checks sched ts) =
    (if fst (testLocker sched ts) \<noteq> None then snd (snd (testLocker sched ts))
     else if fst (testStorageSingleKey (snd (snd (testLocker sched ts)))) \<noteq> None
       then snd (testStorageSingleKey (snd (snd (testLocker sched ts))))
       else snd (testStorageDir (snd (testStorageSingleKey (snd (snd (testLocker sched ts)))))))"
  by (simp add: checks_def split: prod.splits option.splits)

lemma checks_S: "S (snd (checks sched ts)) = S ts"
  by (simp add: checks_snd testLocker_S testStorageSingleKey_S testStorageDir_S)

lemma checks_randKeys:
  "randKeys (snd (checks sched ts)) =
     randKeys ts @
     (if fst (testLocker sched ts) = None
         \<and> fst (testStorageSingleKey (snd (snd (testLocker sched ts)))) = None
      then [fst (randKey (snd (testStorageSingleKey (snd (snd (testLocker sched ts))))))
              @ ''/k1'',
            fst (randKey (snd (testStorageSingleKey (snd (snd (testLocker sched ts))))))
              @ ''/k/a/b'',
            fst (randKey (snd (testStorageSingleKey (snd (snd (testLocker sched ts))))))
              @ ''/k/c'']
      else [])"
  by (simp add: checks_snd testLocker_randKeys testStorageSingleKey_randKeys
      testStorageDir_randKeys)

text \<open>
  C3. The hierarchical listing check records its three keys \<open>dir/k1\<close>, \<open>dir/k/a/b\<close> and
  \<open>dir/k/c\<close> in the tracked-key list, however it ends. At teardown, however the checks
  ended, \<open>Delete\<close> is called on every tracked key, in the order recorded, and on nothing
  else, and what \<open>Delete\<close> returns changes nothing in the failures reported.
\<close>

theorem Run_teardown:
  assumes "S ts = logged sto" and "dir = fst (randKey ts')"
  shows "calls (snd (Run sched ts))
           = calls (snd (checks sched ts)) @ map Op_Delete (randKeys (snd (checks sched ts)))
       \<and> fst (Run sched ts) = fst (checks sched ts)
       \<and> randKeys (snd (testStorageDir ts'))
           = randKeys ts' @ [dir @ ''/k1'', dir @ ''/k/a/b'', dir @ ''/k/c'']"
proof (intro conjI)
  have "S (snd (checks sched ts)) = logged sto"
    by (simp only: checks_S assms(1))
  then show "calls (snd (Run sched ts))
      = calls (snd (checks sched ts)) @ map Op_Delete (randKeys (snd (checks sched ts)))"
    by (simp add: Run_def split_beta cleanup_calls)
  show "fst (Run sched ts) = fst (checks sched ts)"
    by (simp add: Run_def split_beta)
  show "randKeys (snd (testStorageDir ts'))
      = randKeys ts' @ [dir @ ''/k1'', dir @ ''/k/a/b'', dir @ ''/k/c'']"
    by (simp only: assms(2) testStorageDir_randKeys)
qed

theorem Run_teardown_witness:
  "calls (snd (Run [] (NewTestSuite count_NewSource count_Int (logged Mem) (empty_mem, []))))
     = calls (snd (checks [] (NewTestSuite count_NewSource count_Int (logged Mem) (empty_mem, []))))
       @ map Op_Delete
           (randKeys (snd (checks [] (NewTestSuite count_NewSource count_Int (logged Mem)
              (empty_mem, [])))))
   \<and> fst (Run [] (NewTestSuite count_NewSource count_Int (logged Mem) (empty_mem, [])))
     = fst (checks [] (NewTestSuite count_NewSource count_Int (logged Mem) (empty_mem, [])))
   \<and> randKeys (snd (testStorageDir (NewTestSuite count_NewSource count_Int Busy empty_mem)))
     = randKeys (NewTestSuite count_NewSource count_Int Busy empty_mem)
       @ [''__test__key__0'' @ ''/k1'', ''__test__key__0'' @ ''/k/a/b'', ''__test__key__0'' @ ''/k/c'']"
proof -
  let ?ts = "NewTestSuite count_NewSource count_Int (logged Mem) (empty_mem, [])"
  let ?ts' = "NewTestSuite count_NewSource count_Int Busy empty_mem"
  have S: "S ?ts = logged Mem"
    by (simp add: NewTestSuite_def)
  have k: "''__test__key__0'' = fst (randKey ?ts')" by code_simp
  show ?thesis
    by (rule Run_teardown[OF S k])
qed

text \<open>
  On the in-memory storage the suite passes; the key of the single-key check, which
  \<open>randKey\<close> generated, is not among the tracked keys and is not deleted at teardown.
\<close>

theorem Run_teardown_counterexample:
  "fst (Run [] (NewTestSuite count_NewSource count_Int (logged Mem) (empty_mem, []))) = []
   \<and> fst (randKey (snd (snd (testLocker []
        (NewTestSuite count_NewSource count_Int (logged Mem) (empty_mem, []))))))
       = ''__test__key__6''
   \<and> Op_Store ''__test__key__6'' (Some ''__test__key__6'')
       \<in> set (calls (snd (Run [] (NewTestSuite count_NewSource count_Int (logged Mem)
                   (empty_mem, [])))))
   \<and> ''__test__key__6''
       \<notin> set (randKeys (snd (Run [] (NewTestSuite count_NewSource count_Int (logged Mem)
                   (empty_mem, [])))))
   \<and> drop (length (calls (snd (checks [] (NewTestSuite count_NewSource count_Int (logged Mem)
                   (empty_mem, []))))))
        (calls (snd (Run [] (NewTestSuite count_NewSource count_Int (logged Mem)
                   (empty_mem, [])))))
       = [Op_Delete ''__test__key__7/k1'', Op_Delete ''__test__key__7/k/a/b'',
          Op_Delete ''__test__key__7/k/c'']"
  by code_simp

section \<open>The hierarchical listing check: before the stores\<close>




section \<open>The single-key lifecycle check: the lock around it\<close>

lemma with_lock_errors_sel:
  "Store (with_lock_errors e sto) = Store sto"
  "Load (with_lock_errors e sto) = Load sto"
  "Delete (with_lock_errors e sto) = Delete sto"
  "Exists (with_lock_errors e sto) = Exists sto"
  "Stat (with_lock_errors e sto) = Stat sto"
  "List (with_lock_errors e sto) = List sto"
  "snd (Lock (with_lock_errors e sto) k st) = snd (Lock sto k st)"
  "snd (Unlock (with_lock_errors e sto) k st) = snd (Unlock sto k st)"
  by (simp_all add: with_lock_errors_def)

lemma singleKey_checks_lock_free:
  assumes "S ts' = with_lock_errors e (S ts)" and "backend ts' = backend ts"
  shows "fst (singleKey_checks key val ts') = fst (singleKey_checks key val ts)
       \<and> backend (snd (singleKey_checks key val ts')) = backend (snd (singleKey_checks key val ts))"
  unfolding singleKey_checks_def
  by (simp add: Let_def split_beta call_fst call_S call_backend sum.case_eq_if assms
      with_lock_errors_sel)

lemma testStorageSingleKey_lock_free:
  "fst (testStorageSingleKey (ts\<lparr>S := with_lock_errors e (S ts)\<rparr>)) = fst (testStorageSingleKey ts)
   \<and> backend (snd (testStorageSingleKey (ts\<lparr>S := with_lock_errors e (S ts)\<rparr>)))
       = backend (snd (testStorageSingleKey ts))"
proof -
  let ?ts' = "ts\<lparr>S := with_lock_errors e (S ts)\<rparr>"
  let ?key = "fst (randKey ts)"
  let ?a = "snd (call (\<lambda>sto. Lock sto ?key) (snd (randKey ts)))"
  let ?a' = "snd (call (\<lambda>sto. Lock sto ?key) (snd (randKey ?ts')))"
  have k: "fst (randKey ?ts') = ?key"
    by (simp add: randKey_fst)
  have 1: "S ?a' = with_lock_errors e (S ?a)"
    by (simp add: call_S randKey_S)
  have 2: "backend ?a' = backend ?a"
    by (simp add: call_backend randKey_S randKey_backend with_lock_errors_sel)
  note c = singleKey_checks_lock_free[OF 1 2, of ?key "Some ?key"]
  have 3: "S (snd (singleKey_checks ?key (Some ?key) ?a'))
             = with_lock_errors e (S (snd (singleKey_checks ?key (Some ?key) ?a)))"
    by (simp only: singleKey_checks_S 1)
  show ?thesis
    by (simp add: testStorageSingleKey_fst testStorageSingleKey_snd k c call_backend 3
        with_lock_errors_sel)
qed

text \<open>
  C10. The single-key lifecycle check calls \<open>Lock\<close> on its key first and \<open>Unlock\<close> on it
  last, on every way out, with the first assertion, \<open>Exists\<close>, right after \<open>Lock\<close>; and
  what \<open>Lock\<close> and \<open>Unlock\<close> return is ignored: were both to return any error, or none,
  with the same effect on the storage, the outcome of the check and the state of the
  storage would be the same.
\<close>

theorem testStorageSingleKey_lock_ignored:
  assumes "key = fst (randKey ts)" and "S ts = logged sto"
  shows "(\<exists>cs. calls (snd (testStorageSingleKey ts))
                 = calls ts @ [Op_Lock key, Op_Exists key] @ cs @ [Op_Unlock key])
       \<and> fst (testStorageSingleKey (ts'\<lparr>S := with_lock_errors e (S ts')\<rparr>))
           = fst (testStorageSingleKey ts')
       \<and> backend (snd (testStorageSingleKey (ts'\<lparr>S := with_lock_errors e (S ts')\<rparr>)))
           = backend (snd (testStorageSingleKey ts'))"
proof (intro conjI)
  from testStorageSingleKey_calls[OF assms(2)]
  obtain cs where c: "calls (snd (testStorageSingleKey ts))
        = calls ts @ [Op_Lock key] @ cs @ [Op_Unlock key]"
      "cs \<noteq> []" "prefix cs (map fst (lifecycle key))"
    unfolding assms(1) by (elim exE conjE)
  from c(2,3) obtain cs' where "cs = Op_Exists key # cs'"
    by (cases cs) (simp_all add: lifecycle_def)
  with c(1) show "\<exists>cs. calls (snd (testStorageSingleKey ts))
                 = calls ts @ [Op_Lock key, Op_Exists key] @ cs @ [Op_Unlock key]"
    by simp
qed (simp_all add: testStorageSingleKey_lock_free)

theorem testStorageSingleKey_lock_ignored_witness:
  "(\<exists>cs. calls (snd (testStorageSingleKey
             (NewTestSuite count_NewSource count_Int (logged Busy) (empty_mem, []))))
           = [] @ [Op_Lock ''__test__key__0'', Op_Exists ''__test__key__0''] @ cs
             @ [Op_Unlock ''__test__key__0''])
   \<and> fst (testStorageSingleKey
        ((NewTestSuite count_NewSource count_Int Mem empty_mem)
           \<lparr>S := with_lock_errors (Some ''lock timeout'')
                  (S (NewTestSuite count_NewSource count_Int Mem empty_mem))\<rparr>))
       = fst (testStorageSingleKey (NewTestSuite count_NewSource count_Int Mem empty_mem))
   \<and> fst (Lock (logged Busy) ''__test__key__0'' (empty_mem, [])) = Some ''lock timeout''
   \<and> fst (testStorageSingleKey
        (NewTestSuite count_NewSource count_Int (logged Busy) (empty_mem, []))) = None"
proof -
  let ?ts = "NewTestSuite count_NewSource count_Int (logged Busy) (empty_mem, [])"
  let ?ts' = "NewTestSuite count_NewSource count_Int Mem empty_mem"
  have k: "''__test__key__0'' = fst (randKey ?ts)" by code_simp
  have S: "S ?ts = logged Busy"
    by (simp add: NewTestSuite_def)
  have b: "calls ?ts = []"
    by (simp add: NewTestSuite_def calls_def)
  have l: "fst (Lock (logged Busy) ''__test__key__0'' (empty_mem, [])) = Some ''lock timeout''"
    by code_simp
  have p: "fst (testStorageSingleKey ?ts) = None"
    by code_simp
  from testStorageSingleKey_lock_ignored[OF k S, where ts' = ?ts' and e = "Some ''lock timeout''",
      unfolded b] l p
  show ?thesis by blast
qed

section \<open>The stress phase, worker by worker\<close>

lemma runs_from_Nil: "5 \<le> i \<Longrightarrow> runs_from key i []"
  by (simp add: runs_from_def)

lemma runs_from_Lock_failed:
  "i < 5 \<Longrightarrow> runs_from key (i + 1) l \<Longrightarrow> runs_from key i ((Op_Lock key, R_error (Some e)) # l)"
  by (cases "iterations key l")
     (auto simp: runs_from_def iterations_Lock_failed simp del: iterations.simps)

lemma runs_from_Unlock_ok:
  "i < 5 \<Longrightarrow> runs_from key (i + 1) l \<Longrightarrow>
   runs_from key i ((Op_Lock key, R_error None) # (Op_Unlock key, R_error None) # l)"
  by (cases "iterations key l")
     (auto simp: runs_from_def iterations_Unlock_ok simp del: iterations.simps)

lemma runs_from_Unlock_failed:
  "i < 5 \<Longrightarrow>
   runs_from key i [(Op_Lock key, R_error None), (Op_Unlock key, R_error (Some e))]"
  by (simp add: runs_from_def iterations_Unlock_failed del: iterations.simps)

lemma remaining_next_iter:
  "remaining (next_iter w) l \<Longrightarrow> runs_from (wkey w) (iter w + 1) l"
  by (cases "iter w + 1 < 5") (auto simp: remaining_def next_iter_def runs_from_Nil)

lemma worker_step_remaining:
  assumes "at w = At_Unlock \<longrightarrow> iter w < 5"
  shows "\<exists>new. snd (snd (worker_step (logged sto) w b)) = snd b @ new
           \<and> (\<forall>l. remaining (fst (fst (worker_step (logged sto) w b))) l
                  \<longrightarrow> remaining w (new @ l))
           \<and> (at (fst (fst (worker_step (logged sto) w b))) = At_Unlock
                  \<longrightarrow> iter (fst (fst (worker_step (logged sto) w b))) < 5)"
proof (cases "at w")
  case Returned
  then show ?thesis by (simp add: worker_step_def)
next
  case At_Lock
  show ?thesis
  proof (cases "iter w < 5")
    case False
    then have "worker_step (logged sto) w b = ((w\<lparr>at := Returned\<rparr>, None), b)"
      using At_Lock by (simp add: worker_step_def)
    with False At_Lock show ?thesis
      by (intro exI[of _ "[]"]) (simp add: remaining_def runs_from_Nil)
  next
    case True
    let ?l = "Lock sto (wkey w) (fst b)"
    show ?thesis
    proof (cases "fst ?l")
      case (Some e)
      then have s: "worker_step (logged sto) w b
          = ((next_iter w, None), (snd ?l, snd b @ [(Op_Lock (wkey w), R_error (Some e))]))"
        using At_Lock True
        by (simp add: worker_step_def split_beta Let_def logged_sel record_op_proj)
      have "remaining w ([(Op_Lock (wkey w), R_error (Some e))] @ l)"
        if "remaining (next_iter w) l" for l
        using runs_from_Lock_failed[OF True remaining_next_iter[OF that]] At_Lock
        by (simp add: remaining_def)
      then show ?thesis
        unfolding s
        by (intro exI[of _ "[(Op_Lock (wkey w), R_error (Some e))]"])
           (simp add: next_iter_def)
    next
      case None
      then have s: "worker_step (logged sto) w b
          = ((w\<lparr>at := At_Unlock\<rparr>, None), (snd ?l, snd b @ [(Op_Lock (wkey w), R_error None)]))"
        using At_Lock True
        by (simp add: worker_step_def split_beta Let_def logged_sel record_op_proj)
      show ?thesis
        unfolding s
        by (intro exI[of _ "[(Op_Lock (wkey w), R_error None)]"])
           (use At_Lock True in \<open>simp add: remaining_def\<close>)
    qed
  qed
next
  case At_Unlock
  with assms have i: "iter w < 5" by simp
  let ?u = "Unlock sto (wkey w) (fst b)"
  show ?thesis
  proof (cases "fst ?u")
    case (Some e)
    then have s: "worker_step (logged sto) w b
        = ((w\<lparr>at := Returned\<rparr>, Some (Unlock_failed e)),
           (snd ?u, snd b @ [(Op_Unlock (wkey w), R_error (Some e))]))"
      using At_Unlock
      by (simp add: worker_step_def split_beta Let_def logged_sel record_op_proj)
    show ?thesis
      unfolding s
      by (intro exI[of _ "[(Op_Unlock (wkey w), R_error (Some e))]"])
         (use At_Unlock runs_from_Unlock_failed[OF i, of "wkey w" e] in
           \<open>simp add: remaining_def\<close>)
  next
    case None
    then have s: "worker_step (logged sto) w b
        = ((next_iter w, None), (snd ?u, snd b @ [(Op_Unlock (wkey w), R_error None)]))"
      using At_Unlock
      by (simp add: worker_step_def split_beta Let_def logged_sel record_op_proj)
    have "remaining w ([(Op_Unlock (wkey w), R_error None)] @ l)"
      if "remaining (next_iter w) l" for l
      using runs_from_Unlock_ok[OF i remaining_next_iter[OF that]] At_Unlock
      by (simp add: remaining_def)
    then show ?thesis
      unfolding s
      by (intro exI[of _ "[(Op_Unlock (wkey w), R_error None)]"])
         (simp add: next_iter_def)
  qed
qed

lemma finish_remaining_aux:
  "sto' = logged sto \<Longrightarrow> at w = At_Unlock \<longrightarrow> iter w < 5 \<Longrightarrow>
   \<exists>new. snd (snd (finish sto' w b)) = snd b @ new \<and> remaining w new"
proof (induction sto' w b rule: finish.induct)
  case (1 sto' w b)
  show ?case
  proof (cases "at w = Returned")
    case True
    then show ?thesis by (simp add: finish_of_Returned remaining_def)
  next
    case False
    let ?w = "fst (fst (worker_step sto' w b))"
    let ?b = "snd (worker_step sto' w b)"
    obtain new1 where n1: "snd ?b = snd b @ new1"
        "\<forall>l. remaining ?w l \<longrightarrow> remaining w (new1 @ l)"
        "at ?w = At_Unlock \<longrightarrow> iter ?w < 5"
      using worker_step_remaining[OF "1.prems"(2), of sto b] unfolding "1.prems"(1)
      by (elim exE conjE)
    obtain new2 where n2: "snd (snd (finish sto' ?w ?b)) = snd ?b @ new2" "remaining ?w new2"
      using "1.IH"[OF False prod.collapse prod.collapse "1.prems"(1) n1(3)]
      by (elim exE conjE)
    have "snd (snd (finish sto' w b)) = snd b @ (new1 @ new2)"
      using False n1(1) n2(1) by (subst finish_unfold) simp
    moreover have "remaining w (new1 @ new2)"
      using n1(2) n2(2) by simp
    ultimately show ?thesis by blast
  qed
qed

lemmas finish_remaining = finish_remaining_aux[OF refl]

lemma drain_traces:
  assumes "\<forall>w\<in>set ws. at w = At_Unlock \<longrightarrow> iter w < 5"
  shows "\<exists>tr. snd (snd (drain (logged sto) ws b)) = snd b @ map snd tr
           \<and> (\<forall>e\<in>set tr. k \<le> fst e \<and> fst e < k + length ws)
           \<and> (\<forall>i<length ws. remaining (ws ! i) (map snd (filter (\<lambda>e. fst e = k + i) tr)))"
  using assms
proof (induction ws arbitrary: b k)
  case Nil
  show ?case by (intro exI[of _ "[]"]) simp
next
  case (Cons w ws)
  let ?b = "snd (finish (logged sto) w b)"
  obtain new1 where n1: "snd ?b = snd b @ new1" "remaining w new1"
    using finish_remaining[of w sto b] Cons.prems by auto
  obtain tr' where t: "snd (snd (drain (logged sto) ws ?b)) = snd ?b @ map snd tr'"
      "\<forall>e\<in>set tr'. Suc k \<le> fst e \<and> fst e < Suc k + length ws"
      "\<forall>i<length ws. remaining (ws ! i) (map snd (filter (\<lambda>e. fst e = Suc k + i) tr'))"
    using Cons.IH[of ?b "Suc k"] Cons.prems by auto
  let ?tr = "map (Pair k) new1 @ tr'"
  have f0: "filter (\<lambda>e. fst e = k) tr' = []"
    using t(2) by (auto simp: filter_empty_conv)
  have 1: "snd (snd (drain (logged sto) (w # ws) b)) = snd b @ map snd ?tr"
    using n1(1) t(1) by (simp add: split_beta o_def)
  have 2: "\<forall>e\<in>set ?tr. k \<le> fst e \<and> fst e < k + length (w # ws)"
    using t(2) by auto
  have 3: "remaining ((w # ws) ! i) (map snd (filter (\<lambda>e. fst e = k + i) ?tr))"
    if "i < length (w # ws)" for i
  proof (cases i)
    case 0
    then show ?thesis using n1(2) f0 by (simp add: o_def)
  next
    case (Suc i')
    with that t(3) show ?thesis by (simp add: o_def)
  qed
  show ?case
    by (rule exI[of _ ?tr]) (use 1 2 3 in blast)
qed

lemma run_workers_traces:
  assumes "\<forall>w\<in>set ws. at w = At_Unlock \<longrightarrow> iter w < 5"
  shows "\<exists>tr. snd (snd (run_workers (logged sto) sched ws b)) = snd b @ map snd tr
           \<and> (\<forall>e\<in>set tr. fst e < length ws)
           \<and> (\<forall>i<length ws. remaining (ws ! i) (map snd (filter (\<lambda>e. fst e = i) tr)))"
  using assms
proof (induction sched arbitrary: ws b)
  case Nil
  show ?case using drain_traces[OF Nil.prems, of sto b 0] by simp
next
  case (Cons n sched)
  show ?case
  proof (cases "n < length ws")
    case False
    then show ?thesis using Cons.IH[OF Cons.prems, of b] by simp
  next
    case True
    let ?r = "worker_step (logged sto) (ws ! n) b"
    let ?w = "fst (fst ?r)"
    let ?ws = "ws[n := ?w]"
    have wn: "at (ws ! n) = At_Unlock \<longrightarrow> iter (ws ! n) < 5"
      using Cons.prems True by simp
    obtain new1 where n1: "snd (snd ?r) = snd b @ new1"
        "\<forall>l. remaining ?w l \<longrightarrow> remaining (ws ! n) (new1 @ l)"
        "at ?w = At_Unlock \<longrightarrow> iter ?w < 5"
      using worker_step_remaining[OF wn, of sto b] by (elim exE conjE)
    have wf: "\<forall>w\<in>set ?ws. at w = At_Unlock \<longrightarrow> iter w < 5"
      using Cons.prems n1(3) set_update_subset_insert[of ws n ?w] by auto
    obtain tr' where t:
        "snd (snd (run_workers (logged sto) sched ?ws (snd ?r))) = snd (snd ?r) @ map snd tr'"
        "\<forall>e\<in>set tr'. fst e < length ws"
        "\<forall>i<length ws. remaining (?ws ! i) (map snd (filter (\<lambda>e. fst e = i) tr'))"
      using Cons.IH[OF wf, of "snd ?r"] by auto
    let ?tr = "map (Pair n) new1 @ tr'"
    have 1: "snd (snd (run_workers (logged sto) (n # sched) ws b)) = snd b @ map snd ?tr"
      using True n1(1) t(1) by (simp add: split_beta o_def)
    have 2: "\<forall>e\<in>set ?tr. fst e < length ws"
      using t(2) True by auto
    have 3: "remaining (ws ! i) (map snd (filter (\<lambda>e. fst e = i) ?tr))" if "i < length ws" for i
    proof (cases "i = n")
      case same: True
      have "remaining ?w (map snd (filter (\<lambda>e. fst e = n) tr'))"
        using t(3) True by auto
      then have "remaining (ws ! n) (new1 @ map snd (filter (\<lambda>e. fst e = n) tr'))"
        using n1(2) by blast
      then show ?thesis using same by (simp add: o_def)
    next
      case other: False
      have "remaining (?ws ! i) (map snd (filter (\<lambda>e. fst e = i) tr'))"
        using t(3) that by blast
      with other show ?thesis by (simp add: o_def)
    qed
    show ?thesis
      by (rule exI[of _ ?tr]) (use 1 2 3 in blast)
  qed
qed

lemma run_workers_first_two:
  assumes "i < length ws" "j < length ws" "i \<noteq> j"
    and "at (ws ! i) = At_Lock" "iter (ws ! i) < 5"
    and "at (ws ! j) = At_Lock" "iter (ws ! j) < 5"
  shows "\<exists>r1 r2 rest. snd (snd (run_workers (logged sto) (i # j # sched) ws b))
           = snd b @ (Op_Lock (wkey (ws ! i)), r1) # (Op_Lock (wkey (ws ! j)), r2) # rest"
proof -
  have step: "\<exists>r. snd (snd (worker_step (logged sto) w c)) = snd c @ [(Op_Lock (wkey w), r)]"
    if "at w = At_Lock" "iter w < 5" for w c
    using that by (simp add: worker_step_def split_beta Let_def logged_sel record_op_proj)
  let ?r1 = "worker_step (logged sto) (ws ! i) b"
  let ?ws1 = "ws[i := fst (fst ?r1)]"
  let ?r2 = "worker_step (logged sto) (?ws1 ! j) (snd ?r1)"
  let ?ws2 = "?ws1[j := fst (fst ?r2)]"
  have j: "?ws1 ! j = ws ! j" using assms(3) by simp
  obtain r1 where r1: "snd (snd ?r1) = snd b @ [(Op_Lock (wkey (ws ! i)), r1)]"
    using step[OF assms(4,5), of b] by blast
  obtain r2 where r2: "snd (snd ?r2) = snd (snd ?r1) @ [(Op_Lock (wkey (ws ! j)), r2)]"
    using step[OF assms(6,7), of "snd ?r1"] unfolding j by blast
  obtain rest where rest:
      "snd (snd (run_workers (logged sto) sched ?ws2 (snd ?r2))) = snd (snd ?r2) @ rest"
    using run_workers_log[of sto sched ?ws2 "snd ?r2"] by blast
  have "snd (snd (run_workers (logged sto) (i # j # sched) ws b))
          = snd (snd (run_workers (logged sto) sched ?ws2 (snd ?r2)))"
    using assms(1,2) by (simp add: split_beta)
  then show ?thesis
    using r1 r2 rest by simp
qed

lemma nth_concat_replicate2:
  "i < 2 * length ks \<Longrightarrow> concat (map (\<lambda>k. replicate 2 (f k)) ks) ! i = f (ks ! (i div 2))"
proof (induction ks arbitrary: i)
  case Nil
  then show ?case by simp
next
  case (Cons k ks)
  have r: "replicate 2 (f k) = [f k, f k]"
    by (simp add: numeral_2_eq_2)
  consider "i = 0" | "i = 1" | "2 \<le> i" by linarith
  then show ?case
  proof cases
    case 1
    then show ?thesis by (simp add: r)
  next
    case 2
    then show ?thesis by (simp add: r)
  next
    case 3
    then obtain i' where i': "i = i' + 2" by (metis le_add_diff_inverse2)
    with Cons.prems have "i' < 2 * length ks" by simp
    from Cons.IH[OF this]
    have "concat (map (\<lambda>k. replicate 2 (f k)) ks) ! i' = f (ks ! (i' div 2))" .
    moreover have "(i' + 2) div 2 = Suc (i' div 2)" by simp
    ultimately show ?thesis
      unfolding i' by (simp add: r)
  qed
qed

lemma remaining_spawn: "remaining (spawn key) l = runs_from key 0 l"
  by (simp add: remaining_def spawn_def)

lemma checks_fst: "\<exists>rest. fst (checks sched ts) = fst (snd (testLocker sched ts)) @ rest"
  by (auto simp: checks_def split: prod.splits option.splits)

lemma testLocker_passes_any_schedule:
  "fst (testLocker sched ts) = None \<Longrightarrow> fst (testLocker sched' ts) = None"
  by (simp only: testLocker_passes)

lemma testLocker_run_workers:
  assumes "S ts = logged sto" and "fst (testLocker sched ts) = None"
  shows "\<exists>pre b3. length pre = 3
           \<and> map fst pre = map fst (lock_unlock (Itoa (fst (Rng ts (rngstate ts)))))
           \<and> snd b3 = records ts @ pre
           \<and> backend (snd (snd (testLocker sched ts)))
               = snd (run_workers (logged sto) sched
                   (concat (map (\<lambda>k. replicate 2 (spawn k)) (gen_keys 5 (snd (Rng_Int ts))))) b3)
           \<and> fst (snd (testLocker sched ts))
               = snd (fst (run_workers (logged sto) sched
                   (concat (map (\<lambda>k. replicate 2 (spawn k)) (gen_keys 5 (snd (Rng_Int ts))))) b3))"
proof -
  let ?key = "Itoa (fst (Rng ts (rngstate ts)))"
  let ?ts0 = "snd (Rng_Int ts)"
  let ?c1 = "call (\<lambda>sto. Unlock sto ?key) ?ts0"
  let ?c2 = "call (\<lambda>sto. Lock sto ?key) (snd ?c1)"
  let ?c3 = "call (\<lambda>sto. Unlock sto ?key) (snd ?c2)"
  let ?ts3 = "snd ?c3"
  let ?ws = "concat (map (\<lambda>k. replicate 2 (spawn k)) (gen_keys 5 ?ts0))"
  let ?pre = "[(Op_Unlock ?key, R_error (fst ?c1)), (Op_Lock ?key, R_error (fst ?c2)),
               (Op_Unlock ?key, R_error (fst ?c3))]"
  have S0: "S ?ts0 = logged sto" using assms(1) by (simp add: Rng_Int_snd)
  have S1: "S (snd ?c1) = logged sto" by (simp only: call_S S0)
  have S2: "S (snd ?c2) = logged sto" by (simp only: call_S S0)
  have S3: "S ?ts3 = logged sto" by (simp only: call_S S0)
  have b0: "backend ?ts0 = backend ts" by (simp add: Rng_Int_snd)
  have r1: "snd (backend (snd ?c1)) = records ts @ [(Op_Unlock ?key, R_error (fst ?c1))]"
    by (simp add: call_backend call_fst S0 b0 logged_sel record_op_proj records_def)
  have r2: "snd (backend (snd ?c2)) = snd (backend (snd ?c1)) @ [(Op_Lock ?key, R_error (fst ?c2))]"
    by (simp add: call_backend call_fst S1 logged_sel record_op_proj)
  have r3: "snd (backend ?ts3) = snd (backend (snd ?c2)) @ [(Op_Unlock ?key, R_error (fst ?c3))]"
    by (simp add: call_backend call_fst S2 logged_sel record_op_proj)
  have pre: "snd (backend ?ts3) = records ts @ ?pre"
    by (simp add: r1 r2 r3)
  have g: "gen_keys 5 ?ts3 = gen_keys 5 ?ts0"
    by (rule gen_keys_cong) (simp_all add: call_Rng call_rngstate)
  have ws: "fst (spawn_workers 5 ?ts3) = ?ws"
    by (simp only: spawn_workers_fst g)
  have conds: "fst ?c1 \<noteq> None" "fst ?c2 = None" "fst ?c3 = None"
    using assms(2)
    by (auto simp: testLocker_def Let_def split_beta Rng_Int_fst split: if_splits)
  have t: "testLocker sched ts =
      (None, snd (fst (run_workers (logged sto) sched ?ws (backend ?ts3))),
       (snd (spawn_workers 5 ?ts3))
         \<lparr>backend := snd (run_workers (logged sto) sched ?ws (backend ?ts3))\<rparr>)"
    using conds
    by (auto simp: testLocker_def Let_def split_beta Rng_Int_fst spawn_workers_S
        spawn_workers_backend S3 ws)
  show ?thesis
    by (intro exI[of _ ?pre] exI[of _ "backend ?ts3"])
       (simp add: t pre lock_unlock_def)
qed

lemma testLocker_workers:
  assumes "S ts = logged sto" and "fst (testLocker sched ts) = None"
    and "keys = gen_keys 5 (snd (Rng_Int ts))"
  shows "\<exists>pre tr. records (snd (snd (testLocker sched ts))) = records ts @ pre @ map snd tr
           \<and> length pre = 3
           \<and> (\<forall>e\<in>set tr. fst e < 10)
           \<and> (\<forall>w<10. runs_from (keys ! (w div 2)) 0 (map snd (filter (\<lambda>e. fst e = w) tr)))
           \<and> fst (snd (testLocker sched ts)) = unlock_failures (map snd tr)"
proof -
  let ?ws = "concat (map (\<lambda>k. replicate 2 (spawn k)) keys)"
  have len: "length ?ws = 10"
    by (simp add: assms(3) length_concat o_def sum_list_triv gen_keys_length)
  have nth: "?ws ! w = spawn (keys ! (w div 2))" if "w < 10" for w
    using that nth_concat_replicate2[of w keys spawn] by (simp add: assms(3) gen_keys_length)
  have wf: "\<forall>w\<in>set ?ws. at w = At_Unlock \<longrightarrow> iter w < 5"
    by (auto simp: spawn_def)
  from testLocker_run_workers[OF assms(1,2)]
  obtain pre b3 where p: "length pre = 3" "snd b3 = records ts @ pre"
      "backend (snd (snd (testLocker sched ts))) = snd (run_workers (logged sto) sched ?ws b3)"
      "fst (snd (testLocker sched ts)) = snd (fst (run_workers (logged sto) sched ?ws b3))"
    unfolding assms(3) by (elim exE conjE)
  from run_workers_traces[OF wf, of sto sched b3]
  obtain tr where t: "snd (snd (run_workers (logged sto) sched ?ws b3)) = snd b3 @ map snd tr"
      "\<forall>e\<in>set tr. fst e < length ?ws"
      "\<forall>i<length ?ws. remaining (?ws ! i) (map snd (filter (\<lambda>e. fst e = i) tr))"
    by (elim exE conjE)
  from run_workers_log[of sto sched ?ws b3]
  obtain new where n: "snd (snd (run_workers (logged sto) sched ?ws b3)) = snd b3 @ new"
      "snd (fst (run_workers (logged sto) sched ?ws b3)) = unlock_failures new"
    by (elim exE conjE)
  have new: "new = map snd tr"
    using t(1) n(1) by simp
  have 1: "records (snd (snd (testLocker sched ts))) = records ts @ pre @ map snd tr"
    by (simp add: records_def p(3) t(1) p(2))
  have 2: "\<forall>e\<in>set tr. fst e < 10"
    using t(2) by (simp only: len)
  have 3: "\<forall>w<10. runs_from (keys ! (w div 2)) 0 (map snd (filter (\<lambda>e. fst e = w) tr))"
    using t(3) nth by (simp add: len remaining_spawn)
  have 4: "fst (snd (testLocker sched ts)) = unlock_failures (map snd tr)"
    by (simp only: p(4) n(2) new)
  show ?thesis
    by (intro exI[of _ pre] exI[of _ tr] conjI 1 2 3 4 p(1))
qed

lemma testLocker_first_two:
  assumes "S ts = logged sto" and "fst (testLocker (i # j # sched) ts) = None"
    and "keys = gen_keys 5 (snd (Rng_Int ts))" and "i < 10" and "j < 10" and "i \<noteq> j"
  shows "\<exists>pre rest. calls (snd (snd (testLocker (i # j # sched) ts)))
            = calls ts @ pre @ Op_Lock (keys ! (i div 2)) # Op_Lock (keys ! (j div 2)) # rest
           \<and> length pre = 3"
proof -
  let ?ws = "concat (map (\<lambda>k. replicate 2 (spawn k)) keys)"
  have len: "length ?ws = 10"
    by (simp add: assms(3) length_concat o_def sum_list_triv gen_keys_length)
  have nth: "?ws ! w = spawn (keys ! (w div 2))" if "w < 10" for w
    using that nth_concat_replicate2[of w keys spawn] by (simp add: assms(3) gen_keys_length)
  from testLocker_run_workers[OF assms(1,2)]
  obtain pre b3 where p: "length pre = 3" "snd b3 = records ts @ pre"
      "backend (snd (snd (testLocker (i # j # sched) ts)))
         = snd (run_workers (logged sto) (i # j # sched) ?ws b3)"
    unfolding assms(3) by (elim exE conjE)
  have li: "i < length ?ws" and lj: "j < length ?ws"
    by (simp_all only: len assms(4,5))
  have wi: "at (?ws ! i) = At_Lock" "iter (?ws ! i) < 5" "wkey (?ws ! i) = keys ! (i div 2)"
    by (simp_all only: nth[OF assms(4)]) (simp_all add: spawn_def)
  have wj: "at (?ws ! j) = At_Lock" "iter (?ws ! j) < 5" "wkey (?ws ! j) = keys ! (j div 2)"
    by (simp_all only: nth[OF assms(5)]) (simp_all add: spawn_def)
  from run_workers_first_two[OF li lj assms(6) wi(1,2) wj(1,2), of sto sched b3]
  obtain r1 r2 rest where
    r: "snd (snd (run_workers (logged sto) (i # j # sched) ?ws b3))
           = snd b3 @ (Op_Lock (keys ! (i div 2)), r1) # (Op_Lock (keys ! (j div 2)), r2) # rest"
    unfolding wi(3) wj(3) by (elim exE)
  have "calls (snd (snd (testLocker (i # j # sched) ts)))
          = calls ts @ map fst pre @ Op_Lock (keys ! (i div 2)) # Op_Lock (keys ! (j div 2))
              # map fst rest"
    by (simp only: calls_def p(3) r p(2) records_def) simp
  then show ?thesis
    using p(1) by (intro exI[of _ "map fst pre"] exI[of _ "map fst rest"]) simp
qed

text \<open>
  C7. When the first part of the locking check has passed, the check runs ten workers,
  two on each of the five keys it takes from \<open>randKey\<close>; the keys are distinct exactly
  when the generator's five numbers are. Whatever the interleaving, the calls of the
  check after its first three are the calls of these ten workers, and those of each
  worker read as at most five iterations on its key, five unless its last call is an
  \<open>Unlock\<close> that failed: a \<open>Lock\<close> that fails only ends the iteration, a \<open>Lock\<close> that
  succeeds is followed by the worker's \<open>Unlock\<close>. The failures the check reports for its
  workers are the failed calls of \<open>Unlock\<close>, one for one, and they are failures of the
  run. A worker on its own runs the closure \<open>test\<close>.
\<close>

theorem testLocker_stress_phase:
  assumes "S ts = logged sto" and "fst (testLocker sched ts) = None"
    and "keys = gen_keys 5 (snd (Rng_Int ts))"
  shows "length keys = 5
       \<and> (distinct keys \<longleftrightarrow> distinct (draws 5 (snd (Rng_Int ts))))
       \<and> (\<exists>pre tr. records (snd (snd (testLocker sched ts))) = records ts @ pre @ map snd tr
             \<and> length pre = 3
             \<and> (\<forall>e\<in>set tr. fst e < 10)
             \<and> (\<forall>w<10. runs_from (keys ! (w div 2)) 0 (map snd (filter (\<lambda>e. fst e = w) tr)))
             \<and> fst (snd (testLocker sched ts)) = unlock_failures (map snd tr))
       \<and> (\<exists>rest. fst (Run sched ts) = fst (snd (testLocker sched ts)) @ rest)
       \<and> snd (fst (finish sto' (spawn key) st))
           = (case fst (test sto' key st) of None \<Rightarrow> [] | Some f \<Rightarrow> [f])
       \<and> snd (finish sto' (spawn key) st) = snd (test sto' key st)"
proof (intro conjI)
  show "length keys = 5"
    by (simp only: assms(3) gen_keys_length)
  show "distinct keys \<longleftrightarrow> distinct (draws 5 (snd (Rng_Int ts)))"
    by (simp only: assms(3) gen_keys_distinct)
  show "\<exists>pre tr. records (snd (snd (testLocker sched ts))) = records ts @ pre @ map snd tr
             \<and> length pre = 3
             \<and> (\<forall>e\<in>set tr. fst e < 10)
             \<and> (\<forall>w<10. runs_from (keys ! (w div 2)) 0 (map snd (filter (\<lambda>e. fst e = w) tr)))
             \<and> fst (snd (testLocker sched ts)) = unlock_failures (map snd tr)"
    by (rule testLocker_workers[OF assms])
  show "\<exists>rest. fst (Run sched ts) = fst (snd (testLocker sched ts)) @ rest"
    using checks_fst[of sched ts] by (simp add: Run_def split_beta)
qed (simp_all add: finish_test)

theorem testLocker_stress_phase_witness:
  "length [''__test__key__1'', ''__test__key__2'', ''__test__key__3'', ''__test__key__4'',
           ''__test__key__5''] = 5
   \<and> (distinct [''__test__key__1'', ''__test__key__2'', ''__test__key__3'', ''__test__key__4'',
                 ''__test__key__5''] \<longleftrightarrow>
        distinct (draws 5 (snd (Rng_Int
          (NewTestSuite count_NewSource count_Int (logged Mem) (empty_mem, []))))))
   \<and> (\<exists>pre tr. records (snd (snd (testLocker [2, 0]
                   (NewTestSuite count_NewSource count_Int (logged Mem) (empty_mem, [])))))
                 = records (NewTestSuite count_NewSource count_Int (logged Mem) (empty_mem, []))
                   @ pre @ map snd tr
         \<and> length pre = 3
         \<and> (\<forall>e\<in>set tr. fst e < 10)
         \<and> (\<forall>w<10. runs_from
                ([''__test__key__1'', ''__test__key__2'', ''__test__key__3'',
                  ''__test__key__4'', ''__test__key__5''] ! (w div 2)) 0
                (map snd (filter (\<lambda>e. fst e = w) tr)))
         \<and> fst (snd (testLocker [2, 0]
                (NewTestSuite count_NewSource count_Int (logged Mem) (empty_mem, []))))
             = unlock_failures (map snd tr))
   \<and> (\<exists>rest. fst (Run [2, 0] (NewTestSuite count_NewSource count_Int (logged Mem) (empty_mem, [])))
        = fst (snd (testLocker [2, 0]
            (NewTestSuite count_NewSource count_Int (logged Mem) (empty_mem, [])))) @ rest)
   \<and> snd (fst (finish Busy (spawn ''k'') empty_mem))
       = (case fst (test Busy ''k'' empty_mem) of None \<Rightarrow> [] | Some f \<Rightarrow> [f])
   \<and> snd (finish Busy (spawn ''k'') empty_mem) = snd (test Busy ''k'' empty_mem)"
proof -
  let ?ts = "NewTestSuite count_NewSource count_Int (logged Mem) (empty_mem, [])"
  have S: "S ?ts = logged Mem"
    by (simp add: NewTestSuite_def)
  have p: "fst (testLocker [2, 0] ?ts) = None"
    by code_simp
  have k: "[''__test__key__1'', ''__test__key__2'', ''__test__key__3'', ''__test__key__4'',
            ''__test__key__5''] = gen_keys 5 (snd (Rng_Int ?ts))"
    by code_simp
  show ?thesis
    by (rule testLocker_stress_phase[OF S p k])
qed

text \<open>
  With a generator that repeats its number the locking check passes on the in-memory
  storage, and its five keys are one and the same key, which all ten workers lock.
\<close>

theorem testLocker_distinct_keys_counterexample:
  "fst (testLocker [] (NewTestSuite same_NewSource same_Int (logged Mem) (empty_mem, []))) = None
   \<and> gen_keys 5 (snd (Rng_Int (NewTestSuite same_NewSource same_Int (logged Mem) (empty_mem, []))))
       = [''__test__key__0'', ''__test__key__0'', ''__test__key__0'', ''__test__key__0'',
          ''__test__key__0'']
   \<and> remdups (map key_of (drop 3 (calls (snd (snd (testLocker []
         (NewTestSuite same_NewSource same_Int (logged Mem) (empty_mem, []))))))))
       = [''__test__key__0'']"
  by code_simp

text \<open>
  C8. When the first part of the locking check has passed, then under every schedule the
  calls of the check after its first three are the calls of its ten workers, two for
  each of the five keys, and each of the ten has run to its end when the check returns:
  the one join of the check is on all of them. The workers are not ordered among
  themselves: any worker can make the first call and any other worker the second, so a
  worker of a later key can lock its key before a worker of an earlier key has made a
  call.
\<close>

theorem testLocker_single_join:
  assumes "S ts = logged sto" and "fst (testLocker [] ts) = None"
    and "keys = gen_keys 5 (snd (Rng_Int ts))" and "i < 10" and "j < 10" and "i \<noteq> j"
  shows "(\<exists>pre tr. records (snd (snd (testLocker sched ts))) = records ts @ pre @ map snd tr
             \<and> length pre = 3
             \<and> (\<forall>e\<in>set tr. fst e < 10)
             \<and> (\<forall>w<10. runs_from (keys ! (w div 2)) 0 (map snd (filter (\<lambda>e. fst e = w) tr))))
       \<and> (\<exists>pre rest. calls (snd (snd (testLocker (i # j # sched') ts)))
             = calls ts @ pre @ Op_Lock (keys ! (i div 2)) # Op_Lock (keys ! (j div 2)) # rest
             \<and> length pre = 3)"
proof (rule conjI)
  have "fst (testLocker sched ts) = None"
    using assms(2) by (rule testLocker_passes_any_schedule)
  from testLocker_workers[OF assms(1) this assms(3)]
  show "\<exists>pre tr. records (snd (snd (testLocker sched ts))) = records ts @ pre @ map snd tr
             \<and> length pre = 3
             \<and> (\<forall>e\<in>set tr. fst e < 10)
             \<and> (\<forall>w<10. runs_from (keys ! (w div 2)) 0 (map snd (filter (\<lambda>e. fst e = w) tr)))"
    by blast
next
  have "fst (testLocker (i # j # sched') ts) = None"
    using assms(2) by (rule testLocker_passes_any_schedule)
  from testLocker_first_two[OF assms(1) this assms(3-6)]
  show "\<exists>pre rest. calls (snd (snd (testLocker (i # j # sched') ts)))
             = calls ts @ pre @ Op_Lock (keys ! (i div 2)) # Op_Lock (keys ! (j div 2)) # rest
             \<and> length pre = 3" .
qed

theorem testLocker_single_join_witness:
  "(\<exists>pre tr. records (snd (snd (testLocker [7, 7, 1]
                 (NewTestSuite count_NewSource count_Int (logged Mem) (empty_mem, [])))))
               = records (NewTestSuite count_NewSource count_Int (logged Mem) (empty_mem, []))
                 @ pre @ map snd tr
       \<and> length pre = 3
       \<and> (\<forall>e\<in>set tr. fst e < 10)
       \<and> (\<forall>w<10. runs_from
              ([''__test__key__1'', ''__test__key__2'', ''__test__key__3'',
                ''__test__key__4'', ''__test__key__5''] ! (w div 2)) 0
              (map snd (filter (\<lambda>e. fst e = w) tr))))
   \<and> (\<exists>pre rest. calls (snd (snd (testLocker (8 # 0 # [])
                 (NewTestSuite count_NewSource count_Int (logged Mem) (empty_mem, [])))))
             = calls (NewTestSuite count_NewSource count_Int (logged Mem) (empty_mem, []))
               @ pre
               @ Op_Lock ([''__test__key__1'', ''__test__key__2'', ''__test__key__3'',
                           ''__test__key__4'', ''__test__key__5''] ! (8 div 2))
               # Op_Lock ([''__test__key__1'', ''__test__key__2'', ''__test__key__3'',
                           ''__test__key__4'', ''__test__key__5''] ! (0 div 2))
               # rest
         \<and> length pre = 3)"
proof -
  let ?ts = "NewTestSuite count_NewSource count_Int (logged Mem) (empty_mem, [])"
  have S: "S ?ts = logged Mem"
    by (simp add: NewTestSuite_def)
  have p: "fst (testLocker [] ?ts) = None"
    by code_simp
  have k: "[''__test__key__1'', ''__test__key__2'', ''__test__key__3'', ''__test__key__4'',
            ''__test__key__5''] = gen_keys 5 (snd (Rng_Int ?ts))"
    by code_simp
  have i: "(8::nat) < 10" "(0::nat) < 10" "(8::nat) \<noteq> 0" by simp_all
  show ?thesis
    by (rule testLocker_single_join[OF S p k i])
qed

text \<open>
  With the schedule that lets the first worker of the second key go first, that worker
  has locked its key before any worker of the first key has made a call.
\<close>

theorem stress_phase_order_counterexample:
  "take 2 (drop 3 (calls (snd (snd (testLocker [2, 0]
      (NewTestSuite count_NewSource count_Int (logged Mem) (empty_mem, [])))))))
     = [Op_Lock ''__test__key__2'', Op_Lock ''__test__key__1'']"
  by code_simp

end
